theory Spec2Isabelle
  imports Complex_Main
begin

section \<open>The notebook Tutorial\_01 as a script over explicit state\<close>

text \<open>
  The repository is one Jupyter notebook, \<^verbatim>\<open>Tutorial_01.ipynb\<close>. Its code cells are
  run top to bottom and share the interpreter's global variables. The embedding keeps
  that shape:
  \<^item> the variables the cells assign are the fields of the record \<open>globals\<close>; a variable
    that has not been assigned yet is \<open>None\<close>, and reading it raises \<open>NameError\<close>. An
    object that is changed in place (the viewer, the raster reader, a generator that is
    being consumed) is changed in the variable that holds it. The field \<open>files_written\<close>
    is not a variable: it lists the files written to the local disk;
  \<^item> every call into an imported package (shapely, pystac\_client, rasterio, pandas,
    xarray, xcube) is logged, in order, together with the exception it raised, if any.
    The calls the \<^verbatim>\<open>with\<close> statement makes on the reader (\<^verbatim>\<open>__enter__\<close>,
    \<^verbatim>\<open>__exit__\<close>) are logged like the calls the cells write out. A generator runs when
    its loop resumes it: a resume that yields or ends belongs to the call that made the
    generator and leaves no entry of its own, a resume that raises is logged as
    \<open>CallNext\<close> of that call;
  \<^item> a statement is a function from the globals to the calls it made, its value or
    exception, and the globals after it; an exception leaves the globals as they were
    when it was raised;
  \<^item> what the packages answer (the drawn geometries, the catalog, the remote files, the
    viewer) is the record \<open>env\<close>, a parameter of every cell.
  A float is modelled by the rational it denotes (bounds, window offsets, statistics are
  finite), and the sum of two floats is the exact sum rounded to the nearest double,
  ties to even; a sum too large for a double is infinite.

  Left out: the import cell and the cell that builds the map widget (what the user drew
  on it is the field \<open>draw_data\<close> of the environment), the cells that only display a
  variable, and the \<^verbatim>\<open>print\<close> of the bounds. The three strings the catalog cell
  assigns first are parameters of that cell. \<^verbatim>\<open>to_dict\<close> and the xarray operations on
  values in memory (\<open>isel\<close>, \<open>expand_dims\<close>, \<open>concat\<close>) are computed, on rasters that
  share one grid, and do not raise.
\<close>

subsection \<open>Values\<close>

datatype error =
    IndexError
  | NameError
  | AttributeError
  | KeyError
  | OverflowError
  | LibraryError string

text \<open>
  A generator, as far as its loop can tell: it is exhausted, or it yields an element and
  goes on, or the package's code raises when it is resumed.
\<close>

datatype 'a gen = Done | Yield 'a "'a gen" | Fail error

text \<open>What \<^verbatim>\<open>list(g)\<close> would give: every element, or the exception.\<close>

fun drain :: "'a gen \<Rightarrow> error + 'a list" where
  "drain Done = Inr []"
| "drain (Fail e) = Inl e"
| "drain (Yield x g) = (case drain g of Inl e \<Rightarrow> Inl e | Inr xs \<Rightarrow> Inr (x # xs))"

text \<open>The generator that yields the elements of a list and ends.\<close>

fun gen_of :: "'a list \<Rightarrow> 'a gen" where
  "gen_of [] = Done"
| "gen_of (x # xs) = Yield x (gen_of xs)"

text \<open>\<^verbatim>\<open>geometry.bounds\<close> of shapely: the tuple (minx, miny, maxx, maxy).\<close>

type_synonym bounds = "rat \<times> rat \<times> rat \<times> rat"

type_synonym geometry = "(rat \<times> rat) list"

record feature =
  geometry :: geometry

text \<open>\<^verbatim>\<open>rasterio.windows.Window(col_off, row_off, width, height)\<close>.\<close>

record window =
  col_off :: rat
  row_off :: rat
  width :: rat
  height :: rat

text \<open>\<^verbatim>\<open>Statistics(min, max, mean, std)\<close> of rasterio.\<close>

record statistics =
  stat_min :: rat
  stat_max :: rat
  stat_mean :: rat
  stat_std :: rat

text \<open>
  A raster is a list of rows (the y axis), each row a list of pixels (the x axis). A
  datacube is the stack along the time axis: one raster per time coordinate.
\<close>

type_synonym raster = "int list list"

type_synonym timestamp = int

type_synonym datacube = "(timestamp \<times> raster) list"

definition time_coords :: "datacube \<Rightarrow> timestamp list" where
  "time_coords dc = map fst dc"

text \<open>The STAC objects, as far as the notebook looks into them.\<close>

record asset =
  href :: string

record item =
  assets :: "(string \<times> asset) list"

text \<open>
  \<^verbatim>\<open>get_all_items()\<close> and \<^verbatim>\<open>get_collections()\<close> are generator functions: the call
  answers a generator at once, and the package's code runs, and may raise, each time the
  loop asks for the next element.
\<close>

record collection =
  collection_id :: string
  get_all_items :: "item gen"

record catalog =
  get_collections :: "collection gen"

type_synonym affine = "rat \<times> rat \<times> rat \<times> rat \<times> rat \<times> rat"

text \<open>
  The dataset reader \<^verbatim>\<open>rasterio.open\<close> answers. \<open>enter\<close> and \<open>exit\<close> are its
  \<^verbatim>\<open>__enter__\<close> and \<^verbatim>\<open>__exit__\<close>: \<open>exit\<close> is told the exception in flight, if any,
  closes the file and returns \<^verbatim>\<open>None\<close>, or raises; it has no way of swallowing the
  exception in flight. \<open>stats_sidecar\<close> is the file in which GDAL saves the statistics it
  computes, when the raster has none stored and GDAL can write there.
\<close>

record dataset_reader =
  transform :: affine
  band_statistics :: "nat \<Rightarrow> error + statistics"
  stats_sidecar :: "string option"
  enter :: "error + unit"
  exit :: "error option \<Rightarrow> error + unit"

record reader_state =
  reader :: dataset_reader
  closed :: bool

text \<open>The viewer object: its colour range and the datasets added to it so far.\<close>

record viewer =
  value_range :: "rat \<times> rat"
  datasets :: "datacube list"

subsection \<open>The packages and the outside world\<close>

record env =
  draw_data :: "feature list"
  shape_bounds :: "geometry \<Rightarrow> error + bounds"
  client_open :: "string \<Rightarrow> error + catalog"
  rasterio_open :: "string \<Rightarrow> error + dataset_reader"
  from_bounds :: "rat \<Rightarrow> rat \<Rightarrow> rat \<Rightarrow> rat \<Rightarrow> affine \<Rightarrow> error + window"
  open_dataset :: "string \<Rightarrow> error + raster"
  date_range :: "string \<Rightarrow> string \<Rightarrow> error + timestamp list"
  viewer_new :: "rat \<Rightarrow> rat \<Rightarrow> error + unit"
  viewer_add_dataset :: "datacube \<Rightarrow> error + unit"
  viewer_show :: "error + unit"

text \<open>The calls into the packages, in the order of the import cell's packages.\<close>

datatype call =
    CallShape geometry
  | CallClientOpen string
  | CallGetCollections
  | CallGetAllItems string
  | CallNext call
  | CallToDict
  | CallRasterioOpen string
  | CallEnter string
  | CallExit string
  | CallFromBounds rat rat rat rat affine
  | CallStatistics nat
  | CallOpenDataset string
  | CallIsel int int int int
  | CallDateRange string string
  | CallExpandDims
  | CallConcat
  | CallViewer rat rat
  | CallAddDataset datacube
  | CallShow

type_synonym logged = "call \<times> error option"

subsection \<open>Global variables and statements\<close>

record globals =
  v_geometry :: "geometry option"
  v_bounds :: "bounds option"
  v_file_store :: "string list option"
  v_catalog :: "catalog option"
  v_collection :: "collection option"
  v_items :: "item gen option"
  v_item :: "item option"
  v_key :: "string option"
  v_src :: "reader_state option"
  v_window :: "window option"
  v_stats :: "statistics option"
  v_first_run :: "bool option"
  v_f :: "string option"
  v_datacube :: "datacube option"
  v_d :: "datacube option"
  v_viewer :: "viewer option"
  files_written :: "string list"

definition fresh :: globals where
  "fresh = \<lparr> v_geometry = None, v_bounds = None, v_file_store = None, v_catalog = None,
             v_collection = None, v_items = None, v_item = None, v_key = None,
             v_src = None, v_window = None, v_stats = None, v_first_run = None,
             v_f = None, v_datacube = None, v_d = None, v_viewer = None,
             files_written = [] \<rparr>"

text \<open>
  Running a statement from globals \<open>g\<close> gives the package calls it made, in order, then
  its value or the exception that ended it, then the globals it leaves.
\<close>

type_synonym 'a stmt = "globals \<Rightarrow> logged list \<times> (error + 'a) \<times> globals"

definition calls_of :: "logged list \<times> (error + 'a) \<times> globals \<Rightarrow> logged list" where
  "calls_of out = fst out"

definition result_of :: "logged list \<times> (error + 'a) \<times> globals \<Rightarrow> error + 'a" where
  "result_of out = fst (snd out)"

definition globals_of :: "logged list \<times> (error + 'a) \<times> globals \<Rightarrow> globals" where
  "globals_of out = snd (snd out)"

definition ret :: "'a \<Rightarrow> 'a stmt" where
  "ret x = (\<lambda>g. ([], Inr x, g))"

definition raise :: "error \<Rightarrow> 'a stmt" where
  "raise e = (\<lambda>g. ([], Inl e, g))"

definition bind :: "'a stmt \<Rightarrow> ('a \<Rightarrow> 'b stmt) \<Rightarrow> 'b stmt" where
  "bind m f =
     (\<lambda>g. case m g of
        (l, Inl e, g') \<Rightarrow> (l, Inl e, g')
      | (l, Inr x, g') \<Rightarrow> (case f x g' of (l', r, g'') \<Rightarrow> (l @ l', r, g'')))"

definition seq :: "unit stmt \<Rightarrow> 'b stmt \<Rightarrow> 'b stmt" where
  "seq m n = bind m (\<lambda>_. n)"

definition lift :: "error + 'a \<Rightarrow> 'a stmt" where
  "lift r = (\<lambda>g. ([], r, g))"

definition read_var :: "(globals \<Rightarrow> 'a option) \<Rightarrow> 'a stmt" where
  "read_var v = (\<lambda>g. case v g of None \<Rightarrow> ([], Inl NameError, g) | Some x \<Rightarrow> ([], Inr x, g))"

definition assign :: "(globals \<Rightarrow> globals) \<Rightarrow> unit stmt" where
  "assign upd = (\<lambda>g. ([], Inr (), upd g))"

definition raised :: "error + 'a \<Rightarrow> error option" where
  "raised r = (case r of Inl e \<Rightarrow> Some e | Inr _ \<Rightarrow> None)"

definition lib_call :: "call \<Rightarrow> error + 'a \<Rightarrow> 'a stmt" where
  "lib_call c r = (\<lambda>g. ([(c, raised r)], r, g))"

text \<open>
  \<^verbatim>\<open>for x in xs: body\<close> over a list: \<open>var\<close> assigns the loop variable.
\<close>

fun for_each :: "('a \<Rightarrow> globals \<Rightarrow> globals) \<Rightarrow> ('a \<Rightarrow> unit stmt) \<Rightarrow> 'a list \<Rightarrow> unit stmt" where
  "for_each var body [] = ret ()"
| "for_each var body (x # xs) = seq (assign (var x)) (seq (body x) (for_each var body xs))"

text \<open>
  \<^verbatim>\<open>for x in g: body\<close> over the generator that the call \<open>c\<close> made: \<open>rest\<close> keeps the
  variable that holds the generator, if there is one, up to date. A resume that raises
  ends the loop with that exception and leaves the generator finished.
\<close>

fun for_gen ::
    "call \<Rightarrow> ('a gen \<Rightarrow> globals \<Rightarrow> globals) \<Rightarrow> ('a \<Rightarrow> globals \<Rightarrow> globals) \<Rightarrow>
     ('a \<Rightarrow> unit stmt) \<Rightarrow> 'a gen \<Rightarrow> unit stmt" where
  "for_gen c rest var body Done = assign (rest Done)"
| "for_gen c rest var body (Fail e) = seq (assign (rest Done)) (lib_call (CallNext c) (Inl e))"
| "for_gen c rest var body (Yield x g) =
     seq (assign (rest g))
    (seq (assign (var x))
    (seq (body x) (for_gen c rest var body g)))"

text \<open>
  The second half of \<^verbatim>\<open>with mgr as v: body\<close>, after \<^verbatim>\<open>__enter__\<close>: the body is run,
  then \<^verbatim>\<open>__exit__\<close> is called (logged as \<open>c\<close>) with the exception that ended the body, if
  any. If \<^verbatim>\<open>__exit__\<close> raises, its exception replaces the one in flight; if it returns
  \<^verbatim>\<open>None\<close>, the body's outcome stands. \<open>closes\<close> is what a \<^verbatim>\<open>__exit__\<close> that returns
  does to the manager.
\<close>

definition with_exit ::
    "call \<Rightarrow> (error option \<Rightarrow> error + unit) \<Rightarrow> (globals \<Rightarrow> globals) \<Rightarrow> unit stmt \<Rightarrow> unit stmt" where
  "with_exit c ex closes body =
     (\<lambda>g. case body g of (l, r, g') \<Rightarrow>
        (case ex (raised r) of
           Inl e2 \<Rightarrow> (l @ [(c, Some e2)], Inl e2, g')
         | Inr _ \<Rightarrow> (l @ [(c, None)], r, closes g')))"

subsection \<open>Python built-ins the cells use\<close>

text \<open>\<^verbatim>\<open>xs[-1]\<close> and \<^verbatim>\<open>xs[i]\<close> for a literal \<open>i \<ge> 0\<close>.\<close>

definition index_last :: "'a list \<Rightarrow> error + 'a" where
  "index_last xs = (case xs of [] \<Rightarrow> Inl IndexError | _ # _ \<Rightarrow> Inr (last xs))"

definition index_at :: "'a list \<Rightarrow> nat \<Rightarrow> error + 'a" where
  "index_at xs i = (if i < length xs then Inr (xs ! i) else Inl IndexError)"

text \<open>\<^verbatim>\<open>s.split(c)\<close> for a separator of one character.\<close>

fun split :: "char \<Rightarrow> string \<Rightarrow> string list" where
  "split c [] = [[]]"
| "split c (x # xs) =
     (if x = c then [] # split c xs
      else (case split c xs of [] \<Rightarrow> [[x]] | w # ws \<Rightarrow> (x # w) # ws))"

text \<open>\<^verbatim>\<open>int(q)\<close> on a float: the fraction is dropped, towards zero.\<close>

definition py_int :: "rat \<Rightarrow> int" where
  "py_int q = (if 0 \<le> q then \<lfloor>q\<rfloor> else \<lceil>q\<rceil>)"

text \<open>
  \<^verbatim>\<open>a + b\<close> on floats: the exact sum rounded to a double (53 significant bits,
  exponents down to that of the smallest subnormal), ties to even.
\<close>

definition pow2 :: "int \<Rightarrow> rat" where
  "pow2 k = (if 0 \<le> k then 2 ^ nat k else 1 / 2 ^ nat (- k))"

function bit_length :: "int \<Rightarrow> int" where
  "bit_length n = (if n \<le> 0 then 0 else 1 + bit_length (n div 2))"
  by pat_completeness auto
termination
  by (relation "measure nat") auto

text \<open>For \<open>q > 0\<close>, the \<open>k\<close> with \<open>2 ^ k \<le> q < 2 ^ (k + 1)\<close>.\<close>

definition floor_log2 :: "rat \<Rightarrow> int" where
  "floor_log2 q =
     (case quotient_of q of (a, b) \<Rightarrow>
        let k = bit_length a - bit_length b in if pow2 k \<le> q then k else k - 1)"

definition round_half_even :: "rat \<Rightarrow> int" where
  "round_half_even x =
     (let f = \<lfloor>x\<rfloor>; d = x - of_int f
      in if d < 1 / 2 then f else if 1 / 2 < d then f + 1 else if even f then f else f + 1)"

definition round_to_double :: "rat \<Rightarrow> rat" where
  "round_to_double q =
     (if q = 0 then 0
      else let u = pow2 (max (floor_log2 \<bar>q\<bar> - 52) (- 1074))
           in of_int (round_half_even (q / u)) * u)"

definition float_add :: "rat \<Rightarrow> rat \<Rightarrow> rat" where
  "float_add a b = round_to_double (a + b)"

text \<open>
  \<^verbatim>\<open>int(x)\<close> on the result of a float operation. A result that does not fit a double,
  one whose binary exponent after rounding is 1024 or more, is infinite in Python, and
  \<^verbatim>\<open>int\<close> raises on it.
\<close>

definition is_infinite :: "rat \<Rightarrow> bool" where
  "is_infinite x = (x \<noteq> 0 \<and> 1024 \<le> floor_log2 \<bar>x\<bar>)"

definition int_of_float :: "rat \<Rightarrow> error + int" where
  "int_of_float x = (if is_infinite x then Inl OverflowError else Inr (py_int x))"

text \<open>
  \<^verbatim>\<open>xs[a:b]\<close>: a negative bound counts from the end, and both bounds are clamped to
  the length (the adjustment every Python sequence and NumPy axis applies to a slice).
\<close>

definition adjust :: "nat \<Rightarrow> int \<Rightarrow> nat" where
  "adjust n i =
     (if i < 0 then (if int n + i < 0 then 0 else nat (int n + i))
      else (if int n \<le> i then n else nat i))"

definition py_slice :: "int \<Rightarrow> int \<Rightarrow> 'a list \<Rightarrow> 'a list" where
  "py_slice a b xs =
     (let n = length xs; s = adjust n a; e = adjust n b in take (e - s) (drop s xs))"

subsection \<open>xarray operations on values in memory\<close>

text \<open>\<^verbatim>\<open>ds.isel(x=slice(x0, x1), y=slice(y0, y1))\<close>.\<close>

definition isel :: "int \<Rightarrow> int \<Rightarrow> int \<Rightarrow> int \<Rightarrow> raster \<Rightarrow> raster" where
  "isel x0 x1 y0 y1 r = map (py_slice x0 x1) (py_slice y0 y1 r)"

text \<open>\<^verbatim>\<open>ds.expand_dims(time=ts)\<close>: a new leading axis with one copy of the raster per
  coordinate.\<close>

definition expand_dims :: "timestamp list \<Rightarrow> raster \<Rightarrow> datacube" where
  "expand_dims ts r = map (\<lambda>t. (t, r)) ts"

text \<open>\<^verbatim>\<open>concat([a, b], dim='time')\<close>: the second cube's time steps follow the first's.\<close>

definition concat_time :: "datacube list \<Rightarrow> datacube" where
  "concat_time cubes = concat cubes"

subsection \<open>Cell 3: the bounds of the drawn region\<close>

text \<open>
  \<^verbatim>\<open>
  geometry = shape(draw_control.data[-1]['geometry'])
  bounds = geometry.bounds
  \<close>
  The shapely object is kept as the geometry it was built from; \<open>shape_bounds\<close> is the
  call \<^verbatim>\<open>shape\<close> followed by the attribute \<^verbatim>\<open>bounds\<close>.
\<close>

definition cell_bounds :: "env \<Rightarrow> unit stmt" where
  "cell_bounds E =
     bind (lift (index_last (draw_data E))) (\<lambda>drawn.
     bind (lib_call (CallShape (geometry drawn)) (shape_bounds E (geometry drawn))) (\<lambda>b.
     seq (assign (\<lambda>g. g\<lparr>v_geometry := Some (geometry drawn)\<rparr>))
         (assign (\<lambda>g. g\<lparr>v_bounds := Some b\<rparr>))))"

subsection \<open>Cell 4: the asset URLs of the target collection\<close>

definition catalog_url :: string where
  "catalog_url = ''https://s3.eu-central-1.wasabisys.com/stac/openlandmap/catalog.json''"

definition target_collection :: string where
  "target_collection = ''wv_mcd19a2v061.seasconv.m.yearly''"

definition target_item :: string where
  "target_item = ''wv_mcd19a2v061.seasconv.m.yearly_p75_1km_s''"

text \<open>
  \<^verbatim>\<open>
  if key == target_item:
      file_store.append(item.to_dict()['assets'][key]['href'])
  \<close>
\<close>

definition scan_key :: "string \<Rightarrow> item \<Rightarrow> string \<Rightarrow> unit stmt" where
  "scan_key tgt_item it key =
     (if key = tgt_item then
        bind (read_var v_file_store) (\<lambda>fs.
        bind (lib_call CallToDict (Inr (assets it))) (\<lambda>d.
        (case map_of d key of
           None \<Rightarrow> raise KeyError
         | Some a \<Rightarrow> assign (\<lambda>g. g\<lparr>v_file_store := Some (fs @ [href a])\<rparr>))))
      else ret ())"

text \<open>\<^verbatim>\<open>for key in item.to_dict()['assets'].keys(): ...\<close>\<close>

definition scan_item :: "string \<Rightarrow> item \<Rightarrow> unit stmt" where
  "scan_item tgt_item it =
     bind (lib_call CallToDict (Inr (assets it))) (\<lambda>d.
     for_each (\<lambda>key g. g\<lparr>v_key := Some key\<rparr>) (scan_key tgt_item it) (map fst d))"

text \<open>
  \<^verbatim>\<open>
  if collection.id == target_collection:
      items = collection.get_all_items()
      for item in items: ...
  \<close>
\<close>

definition scan_collection :: "string \<Rightarrow> string \<Rightarrow> collection \<Rightarrow> unit stmt" where
  "scan_collection tgt_collection tgt_item c =
     (if collection_id c = tgt_collection then
        bind (lib_call (CallGetAllItems (collection_id c)) (Inr (get_all_items c))) (\<lambda>its.
        seq (assign (\<lambda>g. g\<lparr>v_items := Some its\<rparr>))
            (for_gen (CallGetAllItems (collection_id c))
               (\<lambda>rest g. g\<lparr>v_items := Some rest\<rparr>)
               (\<lambda>it g. g\<lparr>v_item := Some it\<rparr>)
               (scan_item tgt_item) its))
      else ret ())"

text \<open>
  \<^verbatim>\<open>
  file_store = []
  catalog = Client.open(catalog_url)
  for collection in catalog.get_collections(): ...
  \<close>
\<close>

definition cell_catalog :: "env \<Rightarrow> string \<Rightarrow> string \<Rightarrow> string \<Rightarrow> unit stmt" where
  "cell_catalog E url tgt_collection tgt_item =
     seq (assign (\<lambda>g. g\<lparr>v_file_store := Some []\<rparr>))
     (bind (lib_call (CallClientOpen url) (client_open E url)) (\<lambda>cat.
      seq (assign (\<lambda>g. g\<lparr>v_catalog := Some cat\<rparr>))
     (bind (lib_call CallGetCollections (Inr (get_collections cat))) (\<lambda>cols.
      for_gen CallGetCollections
        (\<lambda>rest g. g)
        (\<lambda>c g. g\<lparr>v_collection := Some c\<rparr>)
        (scan_collection tgt_collection tgt_item) cols))))"

subsection \<open>Cell 6: the pixel window and the statistics\<close>

text \<open>
  \<^verbatim>\<open>
  with rasterio.open(file_store[0]) as src:
      window = rasterio.windows.from_bounds(bounds[0],bounds[1],bounds[2],bounds[3],src.transform)
      stats = src.statistics(1)
  \<close>
\<close>

definition window_body :: "env \<Rightarrow> dataset_reader \<Rightarrow> unit stmt" where
  "window_body E rd =
     bind (read_var v_bounds) (\<lambda>(b0, b1, b2, b3).
     bind (lib_call (CallFromBounds b0 b1 b2 b3 (transform rd))
             (from_bounds E b0 b1 b2 b3 (transform rd))) (\<lambda>w.
     seq (assign (\<lambda>g. g\<lparr>v_window := Some w\<rparr>))
     (bind (lib_call (CallStatistics 1) (band_statistics rd 1)) (\<lambda>s.
      seq (assign (\<lambda>g. g\<lparr>files_written :=
             files_written g @ (case stats_sidecar rd of None \<Rightarrow> [] | Some p \<Rightarrow> [p])\<rparr>))
          (assign (\<lambda>g. g\<lparr>v_stats := Some s\<rparr>))))))"

text \<open>
  The cell: the reader is opened and entered, bound to \<^verbatim>\<open>src\<close>, the body is run and
  the reader is left through \<^verbatim>\<open>__exit__\<close>. The cell's last line is the expression
  \<^verbatim>\<open>window\<close>, which reads the variable.
\<close>

definition cell_window :: "env \<Rightarrow> unit stmt" where
  "cell_window E =
     bind (read_var v_file_store) (\<lambda>fs.
     bind (lift (index_at fs 0)) (\<lambda>f0.
     bind (lib_call (CallRasterioOpen f0) (rasterio_open E f0)) (\<lambda>rd.
     bind (lib_call (CallEnter f0) (enter rd)) (\<lambda>_.
     seq (assign (\<lambda>g. g\<lparr>v_src := Some \<lparr>reader = rd, closed = False\<rparr>\<rparr>))
    (seq (with_exit (CallExit f0) (exit rd)
            (\<lambda>g. g\<lparr>v_src := Some \<lparr>reader = rd, closed = True\<rparr>\<rparr>)
            (window_body E rd))
         (bind (read_var v_window) (\<lambda>_. ret ())))))))"

subsection \<open>Cell 8: \<open>read_raster\<close>\<close>

text \<open>What a caller may pass for the parameter \<^verbatim>\<open>window\<close>, and Python's truth test.\<close>

datatype window_arg = ArgNone | ArgBool bool | ArgInt int | ArgWindow window

fun truthy :: "window_arg \<Rightarrow> bool" where
  "truthy ArgNone = False"
| "truthy (ArgBool b) = b"
| "truthy (ArgInt i) = (i \<noteq> 0)"
| "truthy (ArgWindow w) = True"

text \<open>Reading \<^verbatim>\<open>window.col_off\<close> and the other three attributes.\<close>

fun window_attrs :: "window_arg \<Rightarrow> error + window" where
  "window_attrs (ArgWindow w) = Inr w"
| "window_attrs _ = Inl AttributeError"

text \<open>
  \<^verbatim>\<open>
  def read_raster(file_url, window=None):
      if window:
          d = open_dataset(file_url, engine='rasterio').isel(
              x=slice(int(window.col_off), int(window.col_off + window.width)),
              y=slice(int(window.row_off), int(window.row_off + window.height))
          )
      else:
          d = open_dataset(file_url, engine='rasterio')
      d = d.expand_dims(time = date_range(file_url.split('_')[5], file_url.split('_')[6], freq='Y'))
      return d
  \<close>
  The field \<open>date_range\<close> of the environment is pandas' \<^verbatim>\<open>date_range\<close> at
  \<^verbatim>\<open>freq='Y'\<close>.
\<close>

definition read_raster :: "env \<Rightarrow> string \<Rightarrow> window_arg \<Rightarrow> datacube stmt" where
  "read_raster E file_url win =
     bind
       (if truthy win then
          bind (lib_call (CallOpenDataset file_url) (open_dataset E file_url)) (\<lambda>ds.
          bind (lift (window_attrs win)) (\<lambda>w.
          bind (lift (int_of_float (float_add (col_off w) (width w)))) (\<lambda>x1.
          bind (lift (int_of_float (float_add (row_off w) (height w)))) (\<lambda>y1.
          lib_call
            (CallIsel (py_int (col_off w)) x1 (py_int (row_off w)) y1)
            (Inr (isel (py_int (col_off w)) x1 (py_int (row_off w)) y1 ds))))))
        else lib_call (CallOpenDataset file_url) (open_dataset E file_url)) (\<lambda>d.
     bind (lift (index_at (split CHR ''_'' file_url) 5)) (\<lambda>start.
     bind (lift (index_at (split CHR ''_'' file_url) 6)) (\<lambda>stop.
     bind (lib_call (CallDateRange start stop) (date_range E start stop)) (\<lambda>ts.
     lib_call CallExpandDims (Inr (expand_dims ts d))))))"

subsection \<open>Cell 9: the datacube\<close>

text \<open>
  \<^verbatim>\<open>
  if first_run:
      datacube = read_raster(f, window)
      first_run = False
  else:
      d = read_raster(f,window)
      datacube = concat([datacube, d], dim='time')
  \<close>
\<close>

definition loop_body :: "env \<Rightarrow> string \<Rightarrow> unit stmt" where
  "loop_body E f =
     bind (read_var v_first_run) (\<lambda>first.
     if first then
       bind (read_var v_window) (\<lambda>w.
       bind (read_raster E f (ArgWindow w)) (\<lambda>dc.
       seq (assign (\<lambda>g. g\<lparr>v_datacube := Some dc\<rparr>))
           (assign (\<lambda>g. g\<lparr>v_first_run := Some False\<rparr>))))
     else
       bind (read_var v_window) (\<lambda>w.
       bind (read_raster E f (ArgWindow w)) (\<lambda>d.
       seq (assign (\<lambda>g. g\<lparr>v_d := Some d\<rparr>))
       (bind (read_var v_datacube) (\<lambda>dc.
        bind (read_var v_d) (\<lambda>d'.
        bind (lib_call CallConcat (Inr (concat_time [dc, d']))) (\<lambda>c.
        assign (\<lambda>g. g\<lparr>v_datacube := Some c\<rparr>))))))))"

text \<open>
  \<^verbatim>\<open>
  first_run = True
  for f in file_store: ...
  \<close>
\<close>

definition cell_datacube :: "env \<Rightarrow> unit stmt" where
  "cell_datacube E =
     seq (assign (\<lambda>g. g\<lparr>v_first_run := Some True\<rparr>))
     (bind (read_var v_file_store) (\<lambda>fs.
      for_each (\<lambda>f g. g\<lparr>v_f := Some f\<rparr>) (loop_body E) fs))"

subsection \<open>Cells 10 and 11: the viewer\<close>

text \<open>
  \<^verbatim>\<open>viewer = Viewer(server_config = {... 'ValueRange':[stats.min, stats.max] ...})\<close>
\<close>

definition cell_viewer :: "env \<Rightarrow> unit stmt" where
  "cell_viewer E =
     bind (read_var v_stats) (\<lambda>s.
     bind (lib_call (CallViewer (stat_min s) (stat_max s))
             (viewer_new E (stat_min s) (stat_max s))) (\<lambda>_.
     assign (\<lambda>g. g\<lparr>v_viewer :=
        Some \<lparr>value_range = (stat_min s, stat_max s), datasets = []\<rparr>\<rparr>)))"

text \<open>
  \<^verbatim>\<open>
  viewer.add_dataset(datacube, style='mydata')
  viewer.show()
  \<close>
  \<^verbatim>\<open>add_dataset\<close> changes the viewer in place: when it returns, the viewer holds the
  datacube.
\<close>

definition cell_show :: "env \<Rightarrow> unit stmt" where
  "cell_show E =
     bind (read_var v_viewer) (\<lambda>v.
     bind (read_var v_datacube) (\<lambda>dc.
     bind (lib_call (CallAddDataset dc) (viewer_add_dataset E dc)) (\<lambda>_.
     seq (assign (\<lambda>g. g\<lparr>v_viewer := Some (v\<lparr>datasets := datasets v @ [dc]\<rparr>)\<rparr>))
     (bind (read_var v_viewer) (\<lambda>_.
      lib_call CallShow (viewer_show E))))))"

subsection \<open>The notebook, top to bottom\<close>

definition notebook :: "env \<Rightarrow> unit stmt" where
  "notebook E =
     seq (cell_bounds E)
     (seq (cell_catalog E catalog_url target_collection target_item)
     (seq (cell_window E)
     (seq (cell_datacube E)
     (seq (cell_viewer E)
          (cell_show E)))))"

section \<open>Reference descriptions\<close>

text \<open>
  The functions of this section are not taken from the notebook. They say, in the words
  of its description, what a cell is expected to compute, and the theorems compare the
  cells with them.
\<close>

subsection \<open>Listing the asset URLs\<close>

text \<open>The items a collection hands out; none when the listing fails.\<close>

definition items_of :: "collection \<Rightarrow> item list" where
  "items_of c = (case drain (get_all_items c) of Inl _ \<Rightarrow> [] | Inr its \<Rightarrow> its)"

text \<open>The href of every asset stored under the key, in the order of the asset table.\<close>

definition hrefs_under :: "string \<Rightarrow> item \<Rightarrow> string list" where
  "hrefs_under key it = map (\<lambda>ka. href (snd ka)) (filter (\<lambda>ka. fst ka = key) (assets it))"

definition spec_file_store :: "string \<Rightarrow> string \<Rightarrow> collection list \<Rightarrow> string list" where
  "spec_file_store tgt_collection tgt_item cols =
     concat (map (\<lambda>c. concat (map (hrefs_under tgt_item) (items_of c)))
                 (filter (\<lambda>c. collection_id c = tgt_collection) cols))"

text \<open>A Python dict holds each key once.\<close>

definition dict_keys_unique :: "collection list \<Rightarrow> bool" where
  "dict_keys_unique cols =
     list_all (\<lambda>c. list_all (\<lambda>it. distinct (map fst (assets it))) (items_of c)) cols"

subsection \<open>Index ranges\<close>

text \<open>The elements at the positions \<open>i\<close> with \<open>a \<le> i < b\<close>.\<close>

definition spec_range :: "int \<Rightarrow> int \<Rightarrow> 'a list \<Rightarrow> 'a list" where
  "spec_range a b xs = map (\<lambda>i. xs ! i) (filter (\<lambda>i. a \<le> int i \<and> int i < b) [0..<length xs])"

definition spec_window_of :: "window \<Rightarrow> raster \<Rightarrow> raster" where
  "spec_window_of w r =
     map (spec_range (py_int (col_off w)) (py_int (float_add (col_off w) (width w))))
         (spec_range (py_int (row_off w)) (py_int (float_add (row_off w) (height w))) r)"

text \<open>A negative bound read from the end of an axis of length \<open>n\<close>.\<close>

definition from_end :: "nat \<Rightarrow> int \<Rightarrow> int" where
  "from_end n a = (if a < 0 then int n + a else a)"

definition wrapped_range :: "int \<Rightarrow> int \<Rightarrow> 'a list \<Rightarrow> 'a list" where
  "wrapped_range a b xs = spec_range (from_end (length xs) a) (from_end (length xs) b) xs"

definition wrapped_window_of :: "window \<Rightarrow> raster \<Rightarrow> raster" where
  "wrapped_window_of w r =
     map (wrapped_range (py_int (col_off w)) (py_int (float_add (col_off w) (width w))))
         (wrapped_range (py_int (row_off w)) (py_int (float_add (row_off w) (height w))) r)"

subsection \<open>The datacube as one fold\<close>

text \<open>\<^verbatim>\<open>[read_raster(f, window) for f in file_store]\<close>\<close>

fun read_all :: "env \<Rightarrow> window \<Rightarrow> string list \<Rightarrow> datacube list stmt" where
  "read_all E w [] = ret []"
| "read_all E w (f # fs) =
     bind (read_raster E f (ArgWindow w)) (\<lambda>d.
     bind (read_all E w fs) (\<lambda>ds. ret (d # ds)))"

text \<open>The left-associated fold of the binary \<open>concat\<close> over a non-empty list.\<close>

definition spec_fold_concat :: "datacube list \<Rightarrow> datacube option" where
  "spec_fold_concat ds =
     (case ds of [] \<Rightarrow> None
      | d # rest \<Rightarrow> Some (foldl (\<lambda>acc x. concat_time [acc, x]) d rest))"

text \<open>The time coordinates \<open>date_range\<close> gives for a URL; none when a step fails.\<close>

definition dates_of :: "env \<Rightarrow> string \<Rightarrow> timestamp list" where
  "dates_of E f =
     (case index_at (split CHR ''_'' f) 5 of Inl _ \<Rightarrow> []
      | Inr start \<Rightarrow>
         (case index_at (split CHR ''_'' f) 6 of Inl _ \<Rightarrow> []
          | Inr stop \<Rightarrow> (case date_range E start stop of Inl _ \<Rightarrow> [] | Inr ts \<Rightarrow> ts)))"

subsection \<open>Reading the log\<close>

definition quiet :: "logged list \<Rightarrow> bool" where
  "quiet l = list_all (\<lambda>x. snd x = None) l"

text \<open>The stage of the pipeline a call belongs to.\<close>

fun stage :: "call \<Rightarrow> nat" where
  "stage (CallShape _) = 0"
| "stage (CallClientOpen _) = 1"
| "stage CallGetCollections = 1"
| "stage (CallGetAllItems _) = 2"
| "stage (CallNext _) = 2"
| "stage CallToDict = 2"
| "stage (CallRasterioOpen _) = 3"
| "stage (CallEnter _) = 3"
| "stage (CallExit _) = 3"
| "stage (CallFromBounds _ _ _ _ _) = 3"
| "stage (CallStatistics _) = 3"
| "stage (CallOpenDataset _) = 4"
| "stage (CallIsel _ _ _ _) = 4"
| "stage (CallDateRange _ _) = 4"
| "stage CallExpandDims = 4"
| "stage CallConcat = 4"
| "stage (CallViewer _ _) = 5"
| "stage (CallAddDataset _) = 5"
| "stage CallShow = 5"

fun is_open_dataset :: "call \<Rightarrow> bool" where
  "is_open_dataset (CallOpenDataset _) = True"
| "is_open_dataset _ = False"

fun is_concat :: "call \<Rightarrow> bool" where
  "is_concat CallConcat = True"
| "is_concat _ = False"

fun is_get_all_items :: "call \<Rightarrow> bool" where
  "is_get_all_items (CallGetAllItems _) = True"
| "is_get_all_items _ = False"

fun is_from_bounds :: "call \<Rightarrow> bool" where
  "is_from_bounds (CallFromBounds _ _ _ _ _) = True"
| "is_from_bounds _ = False"

fun is_isel :: "call \<Rightarrow> bool" where
  "is_isel (CallIsel _ _ _ _) = True"
| "is_isel _ = False"

fun is_add_dataset :: "call \<Rightarrow> bool" where
  "is_add_dataset (CallAddDataset _) = True"
| "is_add_dataset _ = False"

fun is_rasterio_open :: "call \<Rightarrow> bool" where
  "is_rasterio_open (CallRasterioOpen _) = True"
| "is_rasterio_open _ = False"

fun is_statistics :: "call \<Rightarrow> bool" where
  "is_statistics (CallStatistics _) = True"
| "is_statistics _ = False"

fun is_enter :: "call \<Rightarrow> bool" where
  "is_enter (CallEnter _) = True"
| "is_enter _ = False"

fun is_exit :: "call \<Rightarrow> bool" where
  "is_exit (CallExit _) = True"
| "is_exit _ = False"

definition calls_where :: "(call \<Rightarrow> bool) \<Rightarrow> logged list \<Rightarrow> call list" where
  "calls_where P l = filter P (map fst l)"

section \<open>A sample world\<close>

text \<open>
  One concrete environment, on which the theorems are exercised: two drawn rectangles,
  a catalog of two collections, two yearly rasters of four by four pixels under their
  published URLs, and a viewer that accepts what it is given.
\<close>

definition digits_value :: "string \<Rightarrow> int" where
  "digits_value s = foldl (\<lambda>n c. 10 * n + (of_char c - 48)) 0 s"

text \<open>
  The year-end dates between two dates written \<^verbatim>\<open>YYYYMMDD\<close>, as the numbers
  \<open>YYYY1231\<close>: what \<^verbatim>\<open>date_range(start, end, freq='Y')\<close> answers on such strings.
\<close>

definition year_ends :: "string \<Rightarrow> string \<Rightarrow> error + timestamp list" where
  "year_ends start stop =
     (if length start = 8 \<and> length stop = 8 then
        Inr (filter (\<lambda>t. digits_value start \<le> t \<and> t \<le> digits_value stop)
               (map (\<lambda>y. y * 10000 + 1231)
                  [digits_value start div 10000 .. digits_value stop div 10000]))
      else Inl (LibraryError ''ValueError''))"

definition url_2000 :: string where
  "url_2000 = ''https://s3.openlandmap.org/arco/wv_mcd19a2v061.seasconv.m.yearly_p75_1km_s_20000101_20001231_go_epsg.4326_v20230619.tif''"

definition url_2001 :: string where
  "url_2001 = ''https://s3.openlandmap.org/arco/wv_mcd19a2v061.seasconv.m.yearly_p75_1km_s_20010101_20011231_go_epsg.4326_v20230619.tif''"

definition sample_raster :: "int \<Rightarrow> raster" where
  "sample_raster k =
     [[k, k + 1, k + 2, k + 3],
      [k + 10, k + 11, k + 12, k + 13],
      [k + 20, k + 21, k + 22, k + 23],
      [k + 30, k + 31, k + 32, k + 33]]"

definition sample_catalog :: catalog where
  "sample_catalog = \<lparr> get_collections = gen_of
     [\<lparr> collection_id = ''lc_glad.glcluc'',
        get_all_items = gen_of [\<lparr> assets = [(target_item, \<lparr> href = ''elsewhere.tif'' \<rparr>)] \<rparr>] \<rparr>,
      \<lparr> collection_id = target_collection,
        get_all_items = gen_of
          [\<lparr> assets = [(''thumbnail'', \<lparr> href = ''preview_2000.png'' \<rparr>),
                        (target_item, \<lparr> href = url_2000 \<rparr>)] \<rparr>,
           \<lparr> assets = [(target_item, \<lparr> href = url_2001 \<rparr>),
                        (''wv_mcd19a2v061.seasconv.m.yearly_sd_1km_s'', \<lparr> href = ''sd_2001.tif'' \<rparr>)] \<rparr>] \<rparr>] \<rparr>"

text \<open>A north-up transform \<open>(a, b, c, d, e, f)\<close> maps column and row to
  \<open>(a * col + c, e * row + f)\<close>; the window of a box is read off its inverse.\<close>

definition north_up_from_bounds ::
    "rat \<Rightarrow> rat \<Rightarrow> rat \<Rightarrow> rat \<Rightarrow> affine \<Rightarrow> error + window" where
  "north_up_from_bounds x_left y_bottom x_right y_top t =
     (case t of (a, b, c, d, e, f) \<Rightarrow>
        if a = 0 \<or> e = 0 \<or> b \<noteq> 0 \<or> d \<noteq> 0 then Inl (LibraryError ''WindowError'')
        else Inr \<lparr> col_off = (x_left - c) / a, row_off = (y_top - f) / e,
                   width = (x_right - x_left) / a, height = (y_bottom - y_top) / e \<rparr>)"

definition sample_reader :: dataset_reader where
  "sample_reader = \<lparr> transform = (1, 0, 0, 0, - 1, 4),
     band_statistics = (\<lambda>b. if b = 1
        then Inr \<lparr> stat_min = 29, stat_max = 6931, stat_mean = 1747, stat_std = 1155 \<rparr>
        else Inl (LibraryError ''IndexError'')),
     stats_sidecar = None,
     enter = Inr (),
     exit = (\<lambda>in_flight. Inr ()) \<rparr>"

definition sample_env :: env where
  "sample_env = \<lparr>
     draw_data = [\<lparr> geometry = [(0, 0), (4, 4)] \<rparr>,
                  \<lparr> geometry = [(1/2, 1), (5/2, 1), (5/2, 7/2), (1/2, 7/2)] \<rparr>],
     shape_bounds = (\<lambda>ps. case ps of [] \<Rightarrow> Inl (LibraryError ''empty geometry'')
        | p # _ \<Rightarrow> Inr (fold min (map fst ps) (fst p), fold min (map snd ps) (snd p),
                         fold max (map fst ps) (fst p), fold max (map snd ps) (snd p))),
     client_open = (\<lambda>u. if u = catalog_url then Inr sample_catalog
        else Inl (LibraryError ''APIError'')),
     rasterio_open = (\<lambda>u. if u = url_2000 \<or> u = url_2001 then Inr sample_reader
        else Inl (LibraryError ''RasterioIOError'')),
     from_bounds = north_up_from_bounds,
     open_dataset = (\<lambda>u. if u = url_2000 then Inr (sample_raster 0)
        else if u = url_2001 then Inr (sample_raster 100)
        else Inl (LibraryError ''RasterioIOError'')),
     date_range = year_ends,
     viewer_new = (\<lambda>lo hi. Inr ()),
     viewer_add_dataset = (\<lambda>dc. Inr ()),
     viewer_show = Inr () \<rparr>"

section \<open>Further notions used in the statements and proofs\<close>

text \<open>Every call the statement makes satisfies \<open>P\<close>.\<close>

definition emits :: "(call \<Rightarrow> bool) \<Rightarrow> 'a stmt \<Rightarrow> bool" where
  "emits P m = (\<forall>g. list_all (\<lambda>x. P (fst x)) (calls_of (m g)))"

text \<open>The statement leaves the part \<open>v\<close> of the globals as it found it.\<close>

definition keeps :: "(globals \<Rightarrow> 'b) \<Rightarrow> 'a stmt \<Rightarrow> bool" where
  "keeps v m = (\<forall>g. v (globals_of (m g)) = v g)"

text \<open>
  A log and an outcome agree when no logged call raised, or when exactly the last one
  did and its exception is the outcome.
\<close>

definition agree :: "logged list \<Rightarrow> error + 'a \<Rightarrow> bool" where
  "agree l r = (quiet l \<or> (\<exists>l' c e. l = l' @ [(c, Some e)] \<and> quiet l' \<and> r = Inl e))"

definition propagates :: "'a stmt \<Rightarrow> bool" where
  "propagates m = (\<forall>g. agree (calls_of (m g)) (result_of (m g)))"

text \<open>
  A log runs through the stages \<open>lo\<close> to \<open>hi\<close> in order: the stage never decreases along
  the log and stays within the two.
\<close>

definition in_stages :: "nat \<Rightarrow> nat \<Rightarrow> logged list \<Rightarrow> bool" where
  "in_stages lo hi l =
     (sorted (map (\<lambda>x. stage (fst x)) l) \<and>
      list_all (\<lambda>x. lo \<le> stage (fst x) \<and> stage (fst x) \<le> hi) l)"

definition staged :: "nat \<Rightarrow> nat \<Rightarrow> 'a stmt \<Rightarrow> bool" where
  "staged lo hi m = (\<forall>g. in_stages lo hi (calls_of (m g)))"

text \<open>
  A run of the notebook got as far as its last cell: the five cells before it ended
  normally, and the last cell ended the run.
\<close>

definition reaches_show ::
    "env \<Rightarrow> globals \<Rightarrow> logged list \<Rightarrow> error + unit \<Rightarrow> globals \<Rightarrow>
     logged list \<Rightarrow> logged list \<Rightarrow> logged list \<Rightarrow> logged list \<Rightarrow> logged list \<Rightarrow> logged list \<Rightarrow>
     globals \<Rightarrow> globals \<Rightarrow> globals \<Rightarrow> globals \<Rightarrow> globals \<Rightarrow> bool" where
  "reaches_show E g0 l r g l1 l2 l3 l4 l5 l6 g1 g2 g3 g4 g5 =
     (cell_bounds E g0 = (l1, Inr (), g1) \<and>
      cell_catalog E catalog_url target_collection target_item g1 = (l2, Inr (), g2) \<and>
      cell_window E g2 = (l3, Inr (), g3) \<and>
      cell_datacube E g3 = (l4, Inr (), g4) \<and>
      cell_viewer E g4 = (l5, Inr (), g5) \<and>
      cell_show E g5 = (l6, r, g) \<and>
      l = l1 @ l2 @ l3 @ l4 @ l5 @ l6)"

text \<open>What \<open>read_raster\<close> answers and calls; it neither reads nor writes a global.\<close>

definition read_result :: "env \<Rightarrow> string \<Rightarrow> window_arg \<Rightarrow> error + datacube" where
  "read_result E url win = result_of (read_raster E url win fresh)"

definition read_calls :: "env \<Rightarrow> string \<Rightarrow> window_arg \<Rightarrow> logged list" where
  "read_calls E url win = calls_of (read_raster E url win fresh)"

text \<open>The outcomes of reading the files in order: the cubes, or the first exception.\<close>

fun read_results :: "env \<Rightarrow> window \<Rightarrow> string list \<Rightarrow> error + datacube list" where
  "read_results E w [] = Inr []"
| "read_results E w (f # fs) =
     (case read_result E f (ArgWindow w) of
        Inl e \<Rightarrow> Inl e
      | Inr d \<Rightarrow> (case read_results E w fs of Inl e \<Rightarrow> Inl e | Inr ds \<Rightarrow> Inr (d # ds)))"

text \<open>The calls of the loop cell when every read succeeds.\<close>

definition loop_calls :: "env \<Rightarrow> window \<Rightarrow> string list \<Rightarrow> logged list" where
  "loop_calls E w fs =
     (case fs of [] \<Rightarrow> []
      | f # rest \<Rightarrow> read_calls E f (ArgWindow w) @
          concat (map (\<lambda>f'. read_calls E f' (ArgWindow w) @ [(CallConcat, None)]) rest))"

text \<open>
  An exception raised by a package call ends the statement at that call and is the
  statement's own outcome.
\<close>

definition raises_through :: "'a stmt \<Rightarrow> bool" where
  "raises_through m =
     (\<forall>g c e. (c, Some e) \<in> set (calls_of (m g)) \<longrightarrow>
        result_of (m g) = Inl e \<and> last (calls_of (m g)) = (c, Some e) \<and>
        quiet (butlast (calls_of (m g))))"

text \<open>
  The same with a \<^verbatim>\<open>with\<close> block in the way. A log and an outcome fit an unwinding
  when no logged call raised; or the call that raised is the last one and its exception
  is the outcome; or the call that raised is one of the block's (\<open>P\<close>) and only the
  \<^verbatim>\<open>__exit__\<close> of the block follows it: if that returns, the exception is the outcome,
  and if it raises, what it raises is.
\<close>

definition unwinds :: "(call \<Rightarrow> bool) \<Rightarrow> logged list \<Rightarrow> error + 'a \<Rightarrow> bool" where
  "unwinds P l r =
     (quiet l \<or>
      (\<exists>k c e. quiet k \<and>
         (l = k @ [(c, Some e)] \<and> r = Inl e \<or>
          P c \<and> (\<exists>u. l = k @ [(c, Some e), (CallExit u, None)] \<and> r = Inl e) \<or>
          P c \<and> (\<exists>u e'. l = k @ [(c, Some e), (CallExit u, Some e')] \<and> r = Inl e'))))"

definition unwinding :: "(call \<Rightarrow> bool) \<Rightarrow> 'a stmt \<Rightarrow> bool" where
  "unwinding P m = (\<forall>g. unwinds P (calls_of (m g)) (result_of (m g)))"

text \<open>The calls made inside the \<^verbatim>\<open>with\<close> block of the window cell.\<close>

definition inside_with :: "call \<Rightarrow> bool" where
  "inside_with c = (is_from_bounds c \<or> is_statistics c)"

text \<open>
  The sample world with a raster whose transform \<open>from_bounds\<close> rejects, and the same
  with a reader that also fails to close.
\<close>

definition sample_env_no_window :: env where
  "sample_env_no_window = sample_env\<lparr>
     from_bounds := (\<lambda>x_left y_bottom x_right y_top t. Inl (LibraryError ''WindowError'')) \<rparr>"

definition sample_env_close_fails :: env where
  "sample_env_close_fails = sample_env_no_window\<lparr>
     rasterio_open := (\<lambda>u. Inr (sample_reader\<lparr>
        exit := (\<lambda>in_flight. Inl (LibraryError ''RasterioIOError'')) \<rparr>)) \<rparr>"

text \<open>
  The sample world with a directory configured in which GDAL keeps the auxiliary files
  of rasters it cannot write next to.
\<close>

definition sample_env_pam :: env where
  "sample_env_pam = sample_env\<lparr>
     rasterio_open := (\<lambda>u. Inr (sample_reader\<lparr>
        stats_sidecar := Some ''/tmp/pam/000001_wv_mcd19a2v061.tif.aux.xml'' \<rparr>)) \<rparr>"

text \<open>The sample world with the second raster unreachable.\<close>

definition sample_env_offline :: env where
  "sample_env_offline = sample_env\<lparr> open_dataset := (\<lambda>u. if u = url_2000
      then Inr (sample_raster 0) else Inl (LibraryError ''RasterioIOError'')) \<rparr>"

text \<open>The sample world with a third yearly raster listed.\<close>

definition url_2002 :: string where
  "url_2002 = ''https://s3.openlandmap.org/arco/wv_mcd19a2v061.seasconv.m.yearly_p75_1km_s_20020101_20021231_go_epsg.4326_v20230619.tif''"

definition sample_catalog_three :: catalog where
  "sample_catalog_three = \<lparr> get_collections = gen_of
     [\<lparr> collection_id = target_collection,
        get_all_items = gen_of
          [\<lparr> assets = [(target_item, \<lparr> href = url_2000 \<rparr>)] \<rparr>,
           \<lparr> assets = [(target_item, \<lparr> href = url_2001 \<rparr>)] \<rparr>,
           \<lparr> assets = [(target_item, \<lparr> href = url_2002 \<rparr>)] \<rparr>] \<rparr>] \<rparr>"

definition sample_env_three :: env where
  "sample_env_three = sample_env\<lparr>
     client_open := (\<lambda>u. if u = catalog_url then Inr sample_catalog_three
        else Inl (LibraryError ''APIError'')),
     open_dataset := (\<lambda>u. if u = url_2000 then Inr (sample_raster 0)
        else if u = url_2001 then Inr (sample_raster 100)
        else if u = url_2002 then Inr (sample_raster 200)
        else Inl (LibraryError ''RasterioIOError'')) \<rparr>"

text \<open>The reads and concatenations of a log, in the order they were made.\<close>

definition reads_and_concats :: "logged list \<Rightarrow> call list" where
  "reads_and_concats l = calls_where (\<lambda>c. is_open_dataset c \<or> is_concat c) l"

text \<open>
  Two orders for them. In the first every read comes before every concatenation. In
  the second the first file is read, and each later file is read and concatenated at
  once.
\<close>

definition reads_then_concats :: "call list \<Rightarrow> bool" where
  "reads_then_concats cs = list_all is_concat (dropWhile is_open_dataset cs)"

definition alternating :: "string list \<Rightarrow> call list" where
  "alternating fs =
     (case fs of [] \<Rightarrow> []
      | f # rest \<Rightarrow> CallOpenDataset f # concat (map (\<lambda>f'. [CallOpenDataset f', CallConcat]) rest))"

text \<open>The window of the second drawn rectangle of the sample world.\<close>

definition sample_window :: window where
  "sample_window = \<lparr> col_off = 1 / 2, row_off = 1 / 2, width = 2, height = 5 / 2 \<rparr>"

text \<open>The globals of the sample world before the loop cell, and with nothing listed.\<close>

definition sample_globals :: globals where
  "sample_globals = fresh\<lparr> v_bounds := Some (1 / 2, 1, 5 / 2, 7 / 2),
     v_file_store := Some [url_2000, url_2001], v_window := Some sample_window \<rparr>"

definition sample_globals_empty :: globals where
  "sample_globals_empty = fresh\<lparr> v_file_store := Some [], v_window := Some sample_window \<rparr>"

text \<open>A window that starts left of the raster: two and a half columns before it.\<close>

definition window_off_the_edge :: window where
  "window_off_the_edge = \<lparr> col_off = - 5 / 2, row_off = 0, width = 5, height = 2 \<rparr>"

text \<open>The two sums \<open>read_raster\<close> computes for a window are finite.\<close>

definition finite_sums :: "window \<Rightarrow> bool" where
  "finite_sums w =
     (\<not> is_infinite (float_add (col_off w) (width w)) \<and>
      \<not> is_infinite (float_add (row_off w) (height w)))"

text \<open>A window that runs past the right edge of the raster by three columns.\<close>

definition window_past_the_right :: window where
  "window_past_the_right = \<lparr> col_off = 5 / 2, row_off = 0, width = 5, height = 2 \<rparr>"

text \<open>
  One round of each loop of the catalog cell: what a key adds to \<open>file_store\<close>, and the
  calls of the round for a collection.
\<close>

definition key_hrefs :: "string \<Rightarrow> item \<Rightarrow> string \<Rightarrow> string list" where
  "key_hrefs ti it k = (if k = ti then [href (the (map_of (assets it) k))] else [])"

definition listing_calls :: "string \<Rightarrow> collection \<Rightarrow> logged list \<Rightarrow> bool" where
  "listing_calls tc c l =
     (l = (if collection_id c = tc then [(CallGetAllItems (collection_id c), None)] else []) @
          filter (\<lambda>x. x = (CallToDict, None)) l)"

section \<open>Properties of the notebook\<close>

subsection \<open>Running statements\<close>

lemma bind_apply:
  "bind m f g =
     (case m g of (l, Inl e, g') \<Rightarrow> (l, Inl e, g')
      | (l, Inr x, g') \<Rightarrow> (case f x g' of (l', r, g'') \<Rightarrow> (l @ l', r, g'')))"
  by (simp add: bind_def)

lemmas stmt_defs = bind_apply seq_def ret_def raise_def lift_def read_var_def assign_def lib_call_def

lemma seq_Inr:
  "m g = (l, Inr (), g1) \<Longrightarrow> n g1 = (l', r, g2) \<Longrightarrow> seq m n g = (l @ l', r, g2)"
  by (simp add: seq_def bind_apply)

lemma bind_Inr:
  "m g = (l, Inr x, g1) \<Longrightarrow> f x g1 = (l', r, g2) \<Longrightarrow> bind m f g = (l @ l', r, g2)"
  by (simp add: bind_apply)

lemma bind_Inl:
  "m g = (l, Inl e, g1) \<Longrightarrow> bind m f g = (l, Inl e, g1)"
  by (simp add: bind_apply)

lemma seq_assign: "seq (assign u) m g = m (u g)"
  by (cases "m (u g)") (simp add: seq_def bind_apply assign_def)

lemma run_eq: "m g = (calls_of (m g), result_of (m g), globals_of (m g))"
  by (simp add: calls_of_def result_of_def globals_of_def)

text \<open>
  A loop whose every round ends normally, seen as a fold: \<open>I acc\<close> is what holds of the
  globals once the elements folded into \<open>acc\<close> have been dealt with, and \<open>Q x\<close> what
  holds of the calls of the round for \<open>x\<close>.
\<close>

lemma for_each_fold:
  assumes "\<And>x acc g. x \<in> set xs \<Longrightarrow> I acc g \<Longrightarrow>
             \<exists>l g'. body x (var x g) = (l, Inr (), g') \<and> I (f acc x) g' \<and> Q x l"
    and "I acc g"
  shows "\<exists>ls g'. for_each var body xs g = (concat ls, Inr (), g') \<and>
                  I (foldl f acc xs) g' \<and> list_all2 Q xs ls"
  using assms
proof (induction xs arbitrary: acc g)
  case Nil
  then have "for_each var body [] g = (concat [], Inr (), g) \<and> I (foldl f acc []) g \<and> list_all2 Q [] []"
    by (simp add: ret_def)
  then show ?case by blast
next
  case (Cons x xs)
  from Cons.prems(1)[of x acc g] Cons.prems(2) obtain l g1 where
    one: "body x (var x g) = (l, Inr (), g1)" and inv: "I (f acc x) g1" and q: "Q x l"
    by auto
  have "\<exists>ls g'. for_each var body xs g1 = (concat ls, Inr (), g') \<and>
                 I (foldl f (f acc x) xs) g' \<and> list_all2 Q xs ls"
    by (rule Cons.IH[OF _ inv]) (rule Cons.prems(1), simp_all)
  then obtain ls g' where rest: "for_each var body xs g1 = (concat ls, Inr (), g')"
    and inv': "I (foldl f (f acc x) xs) g'" and qs: "list_all2 Q xs ls"
    by blast
  from one rest have "for_each var body (x # xs) g = (concat (l # ls), Inr (), g')"
    by (simp add: seq_assign seq_Inr)
  with inv' q qs show ?case
    by (intro exI[of _ "l # ls"] exI[of _ g']) simp
qed

lemma for_gen_fold:
  assumes "drain gen = Inr xs"
    and "\<And>x acc g r. x \<in> set xs \<Longrightarrow> I acc g \<Longrightarrow>
             \<exists>l g'. body x (var x (rest r g)) = (l, Inr (), g') \<and> I (f acc x) g' \<and> Q x l"
    and "\<And>acc g r. I acc g \<Longrightarrow> I acc (rest r g)"
    and "I acc g"
  shows "\<exists>ls g'. for_gen c rest var body gen g = (concat ls, Inr (), g') \<and>
                  I (foldl f acc xs) g' \<and> list_all2 Q xs ls"
  using assms
proof (induction gen arbitrary: xs acc g)
  case Done
  then have "for_gen c rest var body Done g = (concat [], Inr (), rest Done g) \<and>
             I (foldl f acc xs) (rest Done g) \<and> list_all2 Q xs []"
    by (simp add: assign_def)
  then show ?case by blast
next
  case (Fail e)
  then show ?case by simp
next
  case (Yield x gen)
  from Yield.prems(1) obtain ys where ys: "drain gen = Inr ys" and xs: "xs = x # ys"
    by (cases "drain gen") auto
  from Yield.prems(2)[of x acc g gen] Yield.prems(4) xs obtain l g1 where
    one: "body x (var x (rest gen g)) = (l, Inr (), g1)" and inv: "I (f acc x) g1" and q: "Q x l"
    by auto
  have "\<exists>ls g'. for_gen c rest var body gen g1 = (concat ls, Inr (), g') \<and>
                 I (foldl f (f acc x) ys) g' \<and> list_all2 Q ys ls"
  proof (rule Yield.IH[OF ys _ _ inv])
    show "\<exists>l g'. body y (var y (rest r g)) = (l, Inr (), g') \<and> I (f acc y) g' \<and> Q y l"
      if "y \<in> set ys" "I acc g" for y acc g r
      using that xs by (intro Yield.prems(2)) simp_all
    show "I acc (rest r g)" if "I acc g" for acc g r
      using that by (rule Yield.prems(3))
  qed
  then obtain ls g' where more: "for_gen c rest var body gen g1 = (concat ls, Inr (), g')"
    and inv': "I (foldl f (f acc x) ys) g'" and qs: "list_all2 Q ys ls"
    by blast
  from one more have "for_gen c rest var body (Yield x gen) g = (concat (l # ls), Inr (), g')"
    by (simp add: seq_assign seq_Inr)
  with inv' q qs xs show ?case
    by (intro exI[of _ "l # ls"] exI[of _ g']) simp
qed

lemma foldl_append_each: "foldl (\<lambda>acc x. acc @ h x) acc xs = acc @ concat (map h xs)"
  by (induction xs arbitrary: acc) simp_all

subsection \<open>The bounds cell\<close>

lemma index_last_empty: "index_last [] = Inl IndexError"
  by (simp add: index_last_def)

lemma index_last_snoc: "index_last (xs @ [x]) = Inr x"
  by (cases xs) (simp_all add: index_last_def)

text \<open>
  C9. With nothing drawn the bounds cell fails with an index error before any package
  is called and leaves the globals alone. With at least one drawn geometry it looks at
  the last one only: the earlier ones may be anything, the call to \<open>shape\<close>, the
  geometry and the bounds assigned are those of the most recent geometry.
\<close>

theorem bounds_use_last_drawn_geometry:
  "cell_bounds (E\<lparr>draw_data := []\<rparr>) g = ([], Inl IndexError, g) \<and>
   cell_bounds (E\<lparr>draw_data := earlier @ [drawn]\<rparr>) g =
     ([(CallShape (geometry drawn), raised (shape_bounds E (geometry drawn)))],
      (case shape_bounds E (geometry drawn) of Inl e \<Rightarrow> Inl e | Inr b \<Rightarrow> Inr ()),
      (case shape_bounds E (geometry drawn) of Inl e \<Rightarrow> g
       | Inr b \<Rightarrow> g\<lparr>v_geometry := Some (geometry drawn), v_bounds := Some b\<rparr>))"
  by (cases "shape_bounds E (geometry drawn)")
     (simp_all add: cell_bounds_def stmt_defs index_last_empty index_last_snoc)

subsection \<open>The catalog cell\<close>

lemma lookup_each_key:
  "distinct (map fst d) \<Longrightarrow>
   map (\<lambda>k. href (the (map_of d k))) (filter (\<lambda>k. k = ti) (map fst d)) =
   map (\<lambda>ka. href (snd ka)) (filter (\<lambda>ka. fst ka = ti) d)"
proof (induction d)
  case Nil
  then show ?case by simp
next
  case (Cons p d)
  obtain k a where p: "p = (k, a)" by (cases p)
  from Cons.prems p have notin: "k \<notin> fst ` set d" and dist: "distinct (map fst d)"
    by auto
  show ?case
  proof (cases "k = ti")
    case True
    with notin have "filter (\<lambda>k. k = ti) (map fst d) = []" "filter (\<lambda>ka. fst ka = ti) d = []"
      by (auto simp: filter_empty_conv)
    with True p show ?thesis by simp
  next
    case False
    have "map (\<lambda>k'. href (the (map_of (p # d) k'))) (filter (\<lambda>k. k = ti) (map fst d)) =
          map (\<lambda>k'. href (the (map_of d k'))) (filter (\<lambda>k. k = ti) (map fst d))"
      using False p by (intro map_cong) auto
    with False p Cons.IH[OF dist] show ?thesis by simp
  qed
qed

lemma scan_key_round:
  assumes "k \<in> fst ` set (assets it)" and "v_file_store g = Some fs"
  shows "\<exists>l g'. scan_key ti it k (g\<lparr>v_key := Some k\<rparr>) = (l, Inr (), g') \<and>
                 v_file_store g' = Some (fs @ key_hrefs ti it k) \<and>
                 list_all (\<lambda>x. x = (CallToDict, None)) l"
proof -
  from assms(1) obtain a where a: "map_of (assets it) k = Some a"
    by (metis domD dom_map_of_conv_image_fst)
  show ?thesis
    using a assms(2)
    by (cases "k = ti") (simp_all add: scan_key_def stmt_defs raised_def key_hrefs_def)
qed

lemma concat_all:
  "list_all2 (\<lambda>x l. list_all P l) xs ls \<Longrightarrow> list_all P (concat ls)"
  by (induction xs ls rule: list_all2_induct) simp_all

lemma scan_item_round:
  assumes "distinct (map fst (assets it))" and "v_file_store g = Some fs"
  shows "\<exists>l g'. scan_item ti it g = (l, Inr (), g') \<and>
                 v_file_store g' = Some (fs @ hrefs_under ti it) \<and>
                 list_all (\<lambda>x. x = (CallToDict, None)) l"
proof -
  let ?I = "\<lambda>acc g. v_file_store g = Some acc"
  let ?Q = "\<lambda>(k::string) l. list_all (\<lambda>x. x = (CallToDict, None)) l"
  have "\<exists>ls g'. for_each (\<lambda>key g. g\<lparr>v_key := Some key\<rparr>) (scan_key ti it) (map fst (assets it)) g =
                   (concat ls, Inr (), g') \<and>
                 ?I (foldl (\<lambda>acc k. acc @ key_hrefs ti it k) fs (map fst (assets it))) g' \<and>
                 list_all2 ?Q (map fst (assets it)) ls"
  proof (rule for_each_fold[where I = ?I and Q = ?Q])
    show "?I fs g" by (rule assms(2))
    show "\<exists>l g'. scan_key ti it k (g\<lparr>v_key := Some k\<rparr>) = (l, Inr (), g') \<and>
                  ?I (acc @ key_hrefs ti it k) g' \<and> ?Q k l"
      if "k \<in> set (map fst (assets it))" "?I acc g" for k acc g
      using scan_key_round[of k it g acc ti] that by simp
  qed
  then obtain ls g' where
    run: "for_each (\<lambda>key g. g\<lparr>v_key := Some key\<rparr>) (scan_key ti it) (map fst (assets it)) g =
            (concat ls, Inr (), g')"
    and st: "v_file_store g' =
       Some (foldl (\<lambda>acc k. acc @ key_hrefs ti it k) fs (map fst (assets it)))"
    and q: "list_all2 ?Q (map fst (assets it)) ls"
    by blast
  have "concat (map (key_hrefs ti it) ks) =
        map (\<lambda>k. href (the (map_of (assets it) k))) (filter (\<lambda>k. k = ti) ks)" for ks
    by (induction ks) (simp_all add: key_hrefs_def)
  from this[of "map fst (assets it)"] lookup_each_key[OF assms(1), of ti]
  have "concat (map (key_hrefs ti it) (map fst (assets it))) = hrefs_under ti it"
    by (simp only: hrefs_under_def)
  with st have st': "v_file_store g' = Some (fs @ hrefs_under ti it)"
    by (simp only: foldl_append_each)
  from q have "list_all (\<lambda>x. x = (CallToDict, None)) (concat ls)"
    by (rule concat_all)
  with run st' show ?thesis
    by (simp add: scan_item_def bind_apply lib_call_def raised_def)
qed

lemma scan_collection_round:
  assumes "collection_id c = tc \<longrightarrow> (\<exists>its. drain (get_all_items c) = Inr its)"
    and "list_all (\<lambda>it. distinct (map fst (assets it))) (items_of c)"
    and "v_file_store g = Some fs"
  shows "\<exists>l g'. scan_collection tc ti c g = (l, Inr (), g') \<and>
                 v_file_store g' =
                   Some (fs @ (if collection_id c = tc then concat (map (hrefs_under ti) (items_of c)) else [])) \<and>
                 l = (if collection_id c = tc then [(CallGetAllItems (collection_id c), None)] else []) @
                     filter (\<lambda>x. x = (CallToDict, None)) l"
proof (cases "collection_id c = tc")
  case False
  with assms(3) show ?thesis by (simp add: scan_collection_def ret_def)
next
  case True
  with assms(1) obtain its where its: "drain (get_all_items c) = Inr its" by auto
  then have items: "items_of c = its" by (simp add: items_of_def)
  let ?I = "\<lambda>acc g. v_file_store g = Some acc"
  let ?Q = "\<lambda>(it::item) l. list_all (\<lambda>x. x = (CallToDict, None)) l"
  let ?g1 = "g\<lparr>v_items := Some (get_all_items c)\<rparr>"
  have "\<exists>ls g'. for_gen (CallGetAllItems (collection_id c))
                   (\<lambda>rest g. g\<lparr>v_items := Some rest\<rparr>) (\<lambda>it g. g\<lparr>v_item := Some it\<rparr>)
                   (scan_item ti) (get_all_items c) ?g1 = (concat ls, Inr (), g') \<and>
                 ?I (foldl (\<lambda>acc it. acc @ hrefs_under ti it) fs its) g' \<and> list_all2 ?Q its ls"
  proof (rule for_gen_fold[where I = ?I and Q = ?Q, OF its])
    show "?I fs ?g1" using assms(3) by simp
    show "?I acc (g\<lparr>v_items := Some r\<rparr>)" if "?I acc g" for acc g r
      using that by simp
    show "\<exists>l g'. scan_item ti it (g\<lparr>v_items := Some r\<rparr>\<lparr>v_item := Some it\<rparr>) = (l, Inr (), g') \<and>
                  ?I (acc @ hrefs_under ti it) g' \<and> ?Q it l"
      if "it \<in> set its" "?I acc g" for it acc g r
    proof -
      from that(1) assms(2) items have "distinct (map fst (assets it))"
        by (simp add: list_all_iff)
      from scan_item_round[OF this, of "g\<lparr>v_items := Some r\<rparr>\<lparr>v_item := Some it\<rparr>" acc ti] that(2)
      show ?thesis by simp
    qed
  qed
  then obtain ls g' where
    run: "for_gen (CallGetAllItems (collection_id c))
            (\<lambda>rest g. g\<lparr>v_items := Some rest\<rparr>) (\<lambda>it g. g\<lparr>v_item := Some it\<rparr>)
            (scan_item ti) (get_all_items c) ?g1 = (concat ls, Inr (), g')"
    and st: "v_file_store g' = Some (foldl (\<lambda>acc it. acc @ hrefs_under ti it) fs its)"
    and q: "list_all2 ?Q its ls"
    by blast
  from q have "list_all (\<lambda>x. x = (CallToDict, None)) (concat ls)"
    by (rule concat_all)
  then have "filter (\<lambda>x. x = (CallToDict, None)) (concat ls) = concat ls"
    by (simp add: list_all_iff)
  with run st True items show ?thesis
    by (simp add: scan_collection_def bind_apply lib_call_def raised_def seq_assign
        foldl_append_each)
qed

lemma scan_collections_run:
  assumes "drain gen = Inr cols"
    and "list_all (\<lambda>c. collection_id c = tc \<longrightarrow> (\<exists>its. drain (get_all_items c) = Inr its)) cols"
    and "dict_keys_unique cols"
    and "v_file_store g = Some fs"
  shows "\<exists>ls g'. for_gen CallGetCollections (\<lambda>rest g. g) (\<lambda>c g. g\<lparr>v_collection := Some c\<rparr>)
                    (scan_collection tc ti) gen g = (concat ls, Inr (), g') \<and>
                  v_file_store g' = Some (fs @ spec_file_store tc ti cols) \<and>
                  list_all2 (listing_calls tc) cols ls"
proof -
  let ?I = "\<lambda>acc g. v_file_store g = Some acc"
  let ?h = "\<lambda>c. if collection_id c = tc then concat (map (hrefs_under ti) (items_of c)) else []"
  have "\<exists>ls g'. for_gen CallGetCollections (\<lambda>rest g. g) (\<lambda>c g. g\<lparr>v_collection := Some c\<rparr>)
                   (scan_collection tc ti) gen g = (concat ls, Inr (), g') \<and>
                 ?I (foldl (\<lambda>acc c. acc @ ?h c) fs cols) g' \<and> list_all2 (listing_calls tc) cols ls"
  proof (rule for_gen_fold[where I = ?I and Q = "listing_calls tc", OF assms(1)])
    show "?I fs g" by (rule assms(4))
    show "?I acc g" if "?I acc g" for acc g
      by (rule that)
    show "\<exists>l g'. scan_collection tc ti c (g\<lparr>v_collection := Some c\<rparr>) = (l, Inr (), g') \<and>
                  ?I (acc @ ?h c) g' \<and> listing_calls tc c l"
      if "c \<in> set cols" "?I acc g" for c acc g
    proof -
      from that(1) assms(2) have a: "collection_id c = tc \<longrightarrow> (\<exists>its. drain (get_all_items c) = Inr its)"
        by (simp add: list_all_iff)
      from that(1) assms(3) have b: "list_all (\<lambda>it. distinct (map fst (assets it))) (items_of c)"
        by (simp add: dict_keys_unique_def list_all_iff)
      from scan_collection_round[OF a b, of "g\<lparr>v_collection := Some c\<rparr>" acc ti] that(2)
      show ?thesis unfolding listing_calls_def by simp
    qed
  qed
  moreover have "concat (map ?h cs) = spec_file_store tc ti cs" for cs
    by (induction cs) (simp_all add: spec_file_store_def)
  ultimately show ?thesis
    by (simp add: foldl_append_each)
qed

lemma cell_catalog_run:
  assumes "client_open E url = Inr cat"
    and "drain (get_collections cat) = Inr cols"
    and "list_all (\<lambda>c. collection_id c = tc \<longrightarrow> (\<exists>its. drain (get_all_items c) = Inr its)) cols"
    and "dict_keys_unique cols"
  shows "\<exists>ls g'. cell_catalog E url tc ti g =
                    ((CallClientOpen url, None) # (CallGetCollections, None) # concat ls, Inr (), g') \<and>
                  v_file_store g' = Some (spec_file_store tc ti cols) \<and>
                  list_all2 (listing_calls tc) cols ls"
proof -
  let ?g0 = "g\<lparr>v_file_store := Some [], v_catalog := Some cat\<rparr>"
  have "v_file_store ?g0 = Some []" by simp
  from scan_collections_run[OF assms(2,3,4) this, of ti] obtain ls g' where
    "for_gen CallGetCollections (\<lambda>rest g. g) (\<lambda>c g. g\<lparr>v_collection := Some c\<rparr>)
       (scan_collection tc ti) (get_collections cat) ?g0 = (concat ls, Inr (), g')"
    and "v_file_store g' = Some (spec_file_store tc ti cols)"
    and "list_all2 (listing_calls tc) cols ls"
    by auto
  then show ?thesis
    using assms(1)
    by (intro exI[of _ ls] exI[of _ g'])
       (simp add: cell_catalog_def bind_apply lib_call_def raised_def seq_assign)
qed

subsection \<open>Slices and truncation\<close>

lemma filter_between:
  "filter (\<lambda>i. A \<le> int i \<and> int i < B) [0..<n] = [nat A ..< min n (nat B)]"
proof (induction n)
  case 0
  then show ?case by simp
next
  case (Suc n)
  show ?case
  proof (cases "int n < B")
    case True
    then have m: "min n (nat B) = n" "min (Suc n) (nat B) = Suc n" by auto
    show ?thesis
    proof (cases "A \<le> int n")
      case True
      then have "nat A \<le> n" by simp
      with Suc \<open>int n < B\<close> True m show ?thesis by simp
    next
      case False
      then have "n < nat A" by simp
      with Suc \<open>int n < B\<close> False m show ?thesis by simp
    qed
  next
    case False
    then have "min n (nat B) = nat B" "min (Suc n) (nat B) = nat B" by auto
    with Suc False show ?thesis by simp
  qed
qed

lemma adjust_from_end: "adjust n a = min n (nat (from_end n a))"
  by (auto simp: adjust_def from_end_def)

lemma take_drop_nth:
  assumes "e \<le> length xs"
  shows "take (e - s) (drop s xs) = map (\<lambda>i. xs ! i) [s..<e]"
  using assms by (auto simp: list_eq_iff_nth_eq)

lemma py_slice_wrapped: "py_slice a b xs = wrapped_range a b xs"
proof -
  let ?n = "length xs"
  let ?A = "from_end ?n a" and ?B = "from_end ?n b"
  have "py_slice a b xs = map (\<lambda>i. xs ! i) [min ?n (nat ?A) ..< min ?n (nat ?B)]"
    by (simp add: py_slice_def Let_def adjust_from_end take_drop_nth)
  also have "[min ?n (nat ?A) ..< min ?n (nat ?B)] = [nat ?A ..< min ?n (nat ?B)]"
    by (cases "nat ?A \<le> ?n") simp_all
  finally show ?thesis
    by (simp add: wrapped_range_def spec_range_def filter_between)
qed

lemma wrapped_range_nonneg: "0 \<le> a \<Longrightarrow> 0 \<le> b \<Longrightarrow> wrapped_range a b xs = spec_range a b xs"
  by (simp add: wrapped_range_def from_end_def)

lemma isel_wrapped:
  "isel (py_int (col_off w)) (py_int (float_add (col_off w) (width w)))
        (py_int (row_off w)) (py_int (float_add (row_off w) (height w))) r = wrapped_window_of w r"
  by (simp add: isel_def wrapped_window_of_def py_slice_wrapped)

lemma wrapped_window_nonneg:
  assumes "0 \<le> py_int (col_off w)" "0 \<le> py_int (float_add (col_off w) (width w))"
    and "0 \<le> py_int (row_off w)" "0 \<le> py_int (float_add (row_off w) (height w))"
  shows "wrapped_window_of w r = spec_window_of w r"
  using assms by (simp add: wrapped_window_of_def spec_window_of_def wrapped_range_nonneg)

lemma py_int_towards_zero:
  "\<bar>of_int (py_int q)\<bar> \<le> \<bar>q\<bar> \<and> \<bar>q - of_int (py_int q)\<bar> < 1"
proof (cases "0 \<le> q")
  case True
  have a: "of_int \<lfloor>q\<rfloor> \<le> q" and b: "q < of_int \<lfloor>q\<rfloor> + 1" by linarith+
  have c: "(0::rat) \<le> of_int \<lfloor>q\<rfloor>" using True by simp
  have "py_int q = \<lfloor>q\<rfloor>" using True by (simp add: py_int_def)
  with a b c True show ?thesis by (simp only:) linarith
next
  case False
  have a: "q \<le> of_int \<lceil>q\<rceil>" and b: "of_int \<lceil>q\<rceil> < q + 1" by linarith+
  have c: "of_int \<lceil>q\<rceil> \<le> (0::rat)" using False by (simp add: ceiling_le_iff)
  have "py_int q = \<lceil>q\<rceil>" using False by (simp add: py_int_def)
  with a b c False show ?thesis by (simp only:) linarith
qed

subsection \<open>\<open>read_raster\<close>\<close>

lemma read_raster_pure:
  "read_raster E url win g = (read_calls E url win, read_result E url win, g)"
  unfolding read_calls_def read_result_def read_raster_def calls_of_def result_of_def
  by (simp add: stmt_defs split: sum.splits prod.splits)

lemma read_result_plain:
  assumes "\<not> truthy win"
    and "open_dataset E url = Inr r"
    and "index_at (split CHR ''_'' url) 5 = Inr start"
    and "index_at (split CHR ''_'' url) 6 = Inr stop"
    and "date_range E start stop = Inr ts"
  shows "read_result E url win = Inr (expand_dims ts r)"
  using assms by (simp add: read_result_def read_raster_def stmt_defs result_of_def)

lemma read_result_window:
  assumes "open_dataset E url = Inr r"
    and "index_at (split CHR ''_'' url) 5 = Inr start"
    and "index_at (split CHR ''_'' url) 6 = Inr stop"
    and "date_range E start stop = Inr ts"
    and "finite_sums w"
  shows "read_result E url (ArgWindow w) = Inr (expand_dims ts (wrapped_window_of w r))"
  using assms
  by (simp add: read_result_def read_raster_def stmt_defs result_of_def isel_wrapped
      int_of_float_def finite_sums_def)

text \<open>
  Where \<open>read_raster\<close> does what is asked of it. With \<open>None\<close> or any other falsy
  \<open>window\<close> it returns the opened raster whole, under its time coordinates. With a window
  whose sums are finite and whose four truncated bounds are not negative it returns
  exactly the existing columns
  from \<open>int(col_off)\<close> inclusive to \<open>int(col_off + width)\<close> exclusive and the existing
  rows from \<open>int(row_off)\<close> inclusive to \<open>int(row_off + height)\<close> exclusive: a window
  that runs past the right or bottom edge is cut down to the pixels that exist.
\<close>

lemma read_raster_inside:
  assumes "open_dataset E url = Inr r"
    and "index_at (split CHR ''_'' url) 5 = Inr start"
    and "index_at (split CHR ''_'' url) 6 = Inr stop"
    and "date_range E start stop = Inr ts"
  shows "(\<not> truthy win \<longrightarrow> result_of (read_raster E url win g) = Inr (expand_dims ts r)) \<and>
         (finite_sums w \<and>
          0 \<le> py_int (col_off w) \<and> 0 \<le> py_int (float_add (col_off w) (width w)) \<and>
          0 \<le> py_int (row_off w) \<and> 0 \<le> py_int (float_add (row_off w) (height w)) \<longrightarrow>
            result_of (read_raster E url (ArgWindow w) g) = Inr (expand_dims ts (spec_window_of w r)))"
proof -
  have plain: "\<not> truthy win \<longrightarrow> result_of (read_raster E url win g) = Inr (expand_dims ts r)"
    using read_result_plain[OF _ assms] by (simp add: read_raster_pure result_of_def)
  have win: "finite_sums w \<longrightarrow>
      result_of (read_raster E url (ArgWindow w) g) = Inr (expand_dims ts (wrapped_window_of w r))"
    using read_result_window[OF assms] by (simp add: read_raster_pure result_of_def)
  have nonneg: "finite_sums w \<and>
          0 \<le> py_int (col_off w) \<and> 0 \<le> py_int (float_add (col_off w) (width w)) \<and>
          0 \<le> py_int (row_off w) \<and> 0 \<le> py_int (float_add (row_off w) (height w)) \<longrightarrow>
            result_of (read_raster E url (ArgWindow w) g) = Inr (expand_dims ts (spec_window_of w r))"
    using win wrapped_window_nonneg[of w r] by simp
  show ?thesis
    using plain nonneg by blast
qed

lemma url_2000_fields:
  "index_at (split CHR ''_'' url_2000) 5 = Inr ''20000101''"
  "index_at (split CHR ''_'' url_2000) 6 = Inr ''20001231''"
  by (simp_all add: url_2000_def index_at_def)

lemma year_2000: "year_ends ''20000101'' ''20001231'' = Inr [20001231]"
  by code_simp

text \<open>
  C5. The claim fails on the code for a window that starts left of the raster, which is
  what \<open>from_bounds\<close> answers for a box drawn across the left edge. In the sample world
  the box from \<open>x = -5/2\<close> to \<open>x = 5/2\<close> over the two top rows has \<open>col_off = -5/2\<close> and
  \<open>width = 5\<close>, so \<open>int(col_off) = -2\<close> and \<open>int(col_off + width) = 2\<close>. The x indices
  from \<open>-2\<close> inclusive to \<open>2\<close> exclusive that exist are columns 0 and 1, and these are what
  the claim says is selected; but the slice \<open>-2:2\<close> of an axis of four starts at column 2
  and \<open>read_raster\<close> returns two rows with no column. A box of the same size drawn across
  the right edge, \<open>col_off = 5/2\<close>, is cut down to the columns that exist, 2 and 3, by
  the same line of code. The sum \<open>col_off + width\<close> is the float sum: for the doubles
  nearest to \<open>0.7\<close> and \<open>0.3\<close> it is \<open>1\<close>, above their exact sum.
\<close>

theorem read_raster_misses_window_off_the_left_edge:
  "from_bounds sample_env (- 5 / 2) 2 (5 / 2) 4 (transform sample_reader) = Inr window_off_the_edge \<and>
   py_int (col_off window_off_the_edge) = - 2 \<and>
   py_int (float_add (col_off window_off_the_edge) (width window_off_the_edge)) = 2 \<and>
   spec_window_of window_off_the_edge (sample_raster 0) = [[0, 1], [10, 11]] \<and>
   result_of (read_raster sample_env url_2000 (ArgWindow window_off_the_edge) fresh) =
     Inr [(20001231, [[], []])] \<and>
   from_bounds sample_env (5 / 2) 2 (15 / 2) 4 (transform sample_reader) = Inr window_past_the_right \<and>
   spec_window_of window_past_the_right (sample_raster 0) = [[2, 3], [12, 13]] \<and>
   result_of (read_raster sample_env url_2000 (ArgWindow window_past_the_right) fresh) =
     Inr [(20001231, [[2, 3], [12, 13]])] \<and>
   float_add (3152519739159347 / 2 ^ 52) (5404319552844595 / 2 ^ 54) = 1 \<and>
   3152519739159347 / 2 ^ 52 + 5404319552844595 / 2 ^ 54 < (1 :: rat)"
  by code_simp

subsection \<open>Rules for the predicates on statements\<close>

lemma emits_ret: "emits P (ret x)"
  and emits_raise: "emits P (raise e)"
  and emits_lift: "emits P (lift r)"
  and emits_read_var: "emits P (read_var v)"
  and emits_assign: "emits P (assign upd)"
  by (simp_all add: emits_def calls_of_def stmt_defs split: option.split)

lemma emits_lib_call: "P c \<Longrightarrow> emits P (lib_call c r)"
  by (simp add: emits_def calls_of_def lib_call_def)

lemma emits_bind:
  assumes "emits P m" and "\<And>x. emits P (f x)"
  shows "emits P (bind m f)"
  unfolding emits_def
proof
  fix g
  obtain l r g' where m: "m g = (l, r, g')" by (cases "m g")
  from assms(1) m have l: "list_all (\<lambda>x. P (fst x)) l"
    by (auto simp: emits_def calls_of_def dest: spec[of _ g])
  show "list_all (\<lambda>x. P (fst x)) (calls_of (bind m f g))"
  proof (cases r)
    case (Inl e)
    with m l show ?thesis by (simp add: bind_apply calls_of_def)
  next
    case (Inr x)
    obtain l' r' g'' where f: "f x g' = (l', r', g'')" by (cases "f x g'")
    from assms(2)[of x] f have "list_all (\<lambda>x. P (fst x)) l'"
      by (auto simp: emits_def calls_of_def dest: spec[of _ g'])
    with m l Inr f show ?thesis by (simp add: bind_apply calls_of_def)
  qed
qed

lemma emits_seq: "emits P m \<Longrightarrow> emits P n \<Longrightarrow> emits P (seq m n)"
  by (simp add: seq_def emits_bind)

lemma emits_for_each: "(\<And>x. emits P (body x)) \<Longrightarrow> emits P (for_each var body xs)"
  by (induction xs) (simp_all add: emits_ret emits_assign emits_seq)

lemma emits_for_gen:
  "P (CallNext c) \<Longrightarrow> (\<And>x. emits P (body x)) \<Longrightarrow> emits P (for_gen c rest var body gen)"
  by (induction gen) (simp_all add: emits_assign emits_seq emits_lib_call)

lemma emits_with_exit:
  assumes "P c" and "emits P body"
  shows "emits P (with_exit c ex closes body)"
  unfolding emits_def
proof
  fix g
  obtain l r g' where b: "body g = (l, r, g')" by (cases "body g")
  from assms(2) b have "list_all (\<lambda>x. P (fst x)) l"
    by (auto simp: emits_def calls_of_def dest: spec[of _ g])
  with assms(1) b show "list_all (\<lambda>x. P (fst x)) (calls_of (with_exit c ex closes body g))"
    by (simp add: with_exit_def calls_of_def split: sum.split)
qed

lemma emits_case_prod: "(\<And>a b. emits P (f a b)) \<Longrightarrow> emits P (case_prod f p)"
  by (cases p) simp

lemma emits_if: "emits P a \<Longrightarrow> emits P b \<Longrightarrow> emits P (if c then a else b)"
  by simp

lemma emits_case_option: "emits P a \<Longrightarrow> (\<And>x. emits P (f x)) \<Longrightarrow> emits P (case_option a f opt)"
  by (cases opt) simp_all

lemma emits_weaken: "emits P m \<Longrightarrow> (\<And>c. P c \<Longrightarrow> Q c) \<Longrightarrow> emits Q m"
  by (auto simp: emits_def list_all_iff)

lemmas emits_rules = emits_ret emits_raise emits_lift emits_read_var emits_assign
  emits_lib_call emits_bind emits_seq emits_for_each emits_for_gen emits_with_exit
  emits_case_prod emits_if emits_case_option

lemma emitsD: "emits P m \<Longrightarrow> m g = (l, r, g') \<Longrightarrow> x \<in> set l \<Longrightarrow> P (fst x)"
  by (auto simp: emits_def calls_of_def list_all_iff dest: spec[of _ g])

lemma emits_calls: "emits P m \<Longrightarrow> m g = (l, r, g') \<Longrightarrow> list_all (\<lambda>x. P (fst x)) l"
  by (auto simp: emits_def calls_of_def dest: spec[of _ g])

lemma keeps_ret: "keeps v (ret x)"
  and keeps_raise: "keeps v (raise e)"
  and keeps_lift: "keeps v (lift r)"
  and keeps_read_var: "keeps v (read_var u)"
  and keeps_lib_call: "keeps v (lib_call c r)"
  by (simp_all add: keeps_def globals_of_def stmt_defs split: option.split)

lemma keeps_assign: "(\<And>g. v (upd g) = v g) \<Longrightarrow> keeps v (assign upd)"
  by (simp add: keeps_def globals_of_def assign_def)

lemma keeps_bind:
  assumes "keeps v m" and "\<And>x. keeps v (f x)"
  shows "keeps v (bind m f)"
  unfolding keeps_def
proof
  fix g
  obtain l r g' where m: "m g = (l, r, g')" by (cases "m g")
  from assms(1) m have g': "v g' = v g"
    by (auto simp: keeps_def globals_of_def dest: spec[of _ g])
  show "v (globals_of (bind m f g)) = v g"
  proof (cases r)
    case (Inl e)
    with m g' show ?thesis by (simp add: bind_apply globals_of_def)
  next
    case (Inr x)
    obtain l' r' g'' where f: "f x g' = (l', r', g'')" by (cases "f x g'")
    from assms(2)[of x] f have "v g'' = v g'"
      by (auto simp: keeps_def globals_of_def dest: spec[of _ g'])
    with m g' Inr f show ?thesis by (simp add: bind_apply globals_of_def)
  qed
qed

lemma keeps_seq: "keeps v m \<Longrightarrow> keeps v n \<Longrightarrow> keeps v (seq m n)"
  by (simp add: seq_def keeps_bind)

lemma keeps_for_each:
  "(\<And>x g. v (var x g) = v g) \<Longrightarrow> (\<And>x. keeps v (body x)) \<Longrightarrow> keeps v (for_each var body xs)"
  by (induction xs) (simp_all add: keeps_ret keeps_assign keeps_seq)

lemma keeps_for_gen:
  "(\<And>r g. v (rest r g) = v g) \<Longrightarrow> (\<And>x g. v (var x g) = v g) \<Longrightarrow> (\<And>x. keeps v (body x)) \<Longrightarrow>
   keeps v (for_gen c rest var body gen)"
  by (induction gen) (simp_all add: keeps_assign keeps_seq keeps_lib_call)

lemma keeps_with_exit:
  assumes "\<And>g. v (closes g) = v g" and "keeps v body"
  shows "keeps v (with_exit c ex closes body)"
  unfolding keeps_def
proof
  fix g
  obtain l r g' where b: "body g = (l, r, g')" by (cases "body g")
  from assms(2) b have "v g' = v g"
    by (auto simp: keeps_def globals_of_def dest: spec[of _ g])
  with assms(1) b show "v (globals_of (with_exit c ex closes body g)) = v g"
    by (simp add: with_exit_def globals_of_def split: sum.split)
qed

lemma keeps_case_prod: "(\<And>a b. keeps v (f a b)) \<Longrightarrow> keeps v (case_prod f p)"
  by (cases p) simp

lemma keeps_if: "keeps v a \<Longrightarrow> keeps v b \<Longrightarrow> keeps v (if c then a else b)"
  by simp

lemma keeps_case_option: "keeps v a \<Longrightarrow> (\<And>x. keeps v (f x)) \<Longrightarrow> keeps v (case_option a f opt)"
  by (cases opt) simp_all

lemmas keeps_rules = keeps_ret keeps_raise keeps_lift keeps_read_var keeps_lib_call
  keeps_assign keeps_bind keeps_seq keeps_for_each keeps_for_gen keeps_with_exit
  keeps_case_prod keeps_if keeps_case_option

lemma keepsD: "keeps v m \<Longrightarrow> m g = (l, r, g') \<Longrightarrow> v g' = v g"
  by (auto simp: keeps_def globals_of_def dest: spec[of _ g])

lemma keeps_field: "keeps (\<lambda>g. upd g) m \<Longrightarrow> (\<And>g. v (upd g) = v g) \<Longrightarrow> keeps v m"
  unfolding keeps_def by metis

lemma quiet_append: "quiet (l @ l') = (quiet l \<and> quiet l')"
  by (simp add: quiet_def)

lemma agree_Inr: "agree l (Inr x) = quiet l"
  by (auto simp: agree_def)

lemma agree_Inl: "agree l (Inl e :: error + 'a) \<Longrightarrow> agree l (Inl e :: error + 'b)"
  by (auto simp: agree_def)

lemma propagates_ret: "propagates (ret x)"
  and propagates_raise: "propagates (raise e)"
  and propagates_lift: "propagates (lift r)"
  and propagates_read_var: "propagates (read_var v)"
  and propagates_assign: "propagates (assign upd)"
  by (simp_all add: propagates_def agree_def quiet_def calls_of_def stmt_defs split: option.split)

lemma propagates_lib_call: "propagates (lib_call c r)"
  by (cases r) (simp_all add: propagates_def agree_def quiet_def calls_of_def result_of_def
      lib_call_def raised_def)

lemma propagates_bind:
  assumes "propagates m" and "\<And>x. propagates (f x)"
  shows "propagates (bind m f)"
  unfolding propagates_def
proof
  fix g
  obtain l r g' where m: "m g = (l, r, g')" by (cases "m g")
  from assms(1) m have lr: "agree l r"
    by (auto simp: propagates_def calls_of_def result_of_def dest: spec[of _ g])
  show "agree (calls_of (bind m f g)) (result_of (bind m f g))"
  proof (cases r)
    case (Inl e)
    with lr have "agree l (Inl e :: error + 'b)" by (auto intro: agree_Inl)
    with m Inl show ?thesis by (simp add: bind_apply calls_of_def result_of_def)
  next
    case (Inr x)
    with lr have ql: "quiet l" by (simp add: agree_Inr)
    obtain l' r' g'' where f: "f x g' = (l', r', g'')" by (cases "f x g'")
    from assms(2)[of x] f have "agree l' r'"
      by (auto simp: propagates_def calls_of_def result_of_def dest: spec[of _ g'])
    then have "agree (l @ l') r'"
      unfolding agree_def
    proof
      assume "quiet l'"
      with ql show "quiet (l @ l') \<or> (\<exists>k c e. l @ l' = k @ [(c, Some e)] \<and> quiet k \<and> r' = Inl e)"
        by (simp add: quiet_append)
    next
      assume "\<exists>k c e. l' = k @ [(c, Some e)] \<and> quiet k \<and> r' = Inl e"
      then obtain k c e where "l' = k @ [(c, Some e)]" "quiet k" "r' = Inl e" by blast
      with ql have "l @ l' = (l @ k) @ [(c, Some e)] \<and> quiet (l @ k) \<and> r' = Inl e"
        by (simp add: quiet_append)
      then show "quiet (l @ l') \<or> (\<exists>k c e. l @ l' = k @ [(c, Some e)] \<and> quiet k \<and> r' = Inl e)"
        by blast
    qed
    with m Inr f show ?thesis by (simp add: bind_apply calls_of_def result_of_def)
  qed
qed

lemma propagates_seq: "propagates m \<Longrightarrow> propagates n \<Longrightarrow> propagates (seq m n)"
  by (simp add: seq_def propagates_bind)

lemma propagates_for_each: "(\<And>x. propagates (body x)) \<Longrightarrow> propagates (for_each var body xs)"
  by (induction xs) (simp_all add: propagates_ret propagates_assign propagates_seq)

lemma propagates_for_gen: "(\<And>x. propagates (body x)) \<Longrightarrow> propagates (for_gen c rest var body gen)"
  by (induction gen) (simp_all add: propagates_assign propagates_seq propagates_lib_call)

lemma propagates_if: "propagates a \<Longrightarrow> propagates b \<Longrightarrow> propagates (if c then a else b)"
  by simp

lemma propagates_case_prod: "(\<And>a b. propagates (f a b)) \<Longrightarrow> propagates (case_prod f p)"
  by (cases p) simp

lemma propagates_case_option:
  "propagates a \<Longrightarrow> (\<And>x. propagates (f x)) \<Longrightarrow> propagates (case_option a f opt)"
  by (cases opt) simp_all

lemmas propagates_rules = propagates_ret propagates_raise propagates_lift propagates_read_var
  propagates_assign propagates_lib_call propagates_bind propagates_seq propagates_for_each
  propagates_for_gen propagates_case_prod propagates_if propagates_case_option

lemma propagates_raises_through:
  assumes "propagates m"
  shows "raises_through m"
  unfolding raises_through_def
proof (intro allI impI)
  fix g c e
  assume mem: "(c, Some e) \<in> set (calls_of (m g))"
  from assms have "agree (calls_of (m g)) (result_of (m g))"
    by (simp add: propagates_def)
  moreover from mem have "\<not> quiet (calls_of (m g))"
    by (force simp: quiet_def list_all_iff)
  ultimately obtain k c' e' where k: "calls_of (m g) = k @ [(c', Some e')]" "quiet k"
      "result_of (m g) = Inl e'"
    by (auto simp: agree_def)
  from mem k(1,2) have "(c, Some e) = (c', Some e')"
    by (auto simp: quiet_def list_all_iff)
  with k show "result_of (m g) = Inl e \<and> last (calls_of (m g)) = (c, Some e) \<and>
      quiet (butlast (calls_of (m g)))"
    by simp
qed

text \<open>Unwinding through a \<^verbatim>\<open>with\<close> block.\<close>

lemma unwinds_Inr: "unwinds P l (Inr x) = quiet l"
  by (auto simp: unwinds_def)

lemma unwinds_Inl: "unwinds P l (Inl e :: error + 'a) \<Longrightarrow> unwinds P l (Inl e :: error + 'b)"
  unfolding unwinds_def by blast

lemma unwinds_after_quiet:
  assumes "quiet l" and "unwinds P l' r"
  shows "unwinds P (l @ l') r"
proof -
  from assms(2) consider "quiet l'"
    | k c e where "quiet k" "l' = k @ [(c, Some e)]" "r = Inl e"
    | k c e u where "quiet k" "P c" "l' = k @ [(c, Some e), (CallExit u, None)]" "r = Inl e"
    | k c e u e' where "quiet k" "P c" "l' = k @ [(c, Some e), (CallExit u, Some e')]" "r = Inl e'"
    unfolding unwinds_def by blast
  then show ?thesis
  proof cases
    case 1
    with assms(1) show ?thesis by (simp add: unwinds_def quiet_append)
  next
    case 2
    with assms(1) have "quiet (l @ k) \<and> l @ l' = (l @ k) @ [(c, Some e)] \<and> r = Inl e"
      by (simp add: quiet_append)
    then show ?thesis unfolding unwinds_def by blast
  next
    case 3
    with assms(1) have "quiet (l @ k) \<and> P c \<and>
        l @ l' = (l @ k) @ [(c, Some e), (CallExit u, None)] \<and> r = Inl e"
      by (simp add: quiet_append)
    then show ?thesis unfolding unwinds_def by blast
  next
    case 4
    with assms(1) have "quiet (l @ k) \<and> P c \<and>
        l @ l' = (l @ k) @ [(c, Some e), (CallExit u, Some e')] \<and> r = Inl e'"
      by (simp add: quiet_append)
    then show ?thesis unfolding unwinds_def by blast
  qed
qed

lemma agree_unwinds: "agree l r \<Longrightarrow> unwinds P l r"
  unfolding agree_def unwinds_def by blast

lemma unwinding_propagates: "propagates m \<Longrightarrow> unwinding P m"
  by (simp add: propagates_def unwinding_def agree_unwinds)

lemma unwinding_bind_result:
  assumes "unwinding P m" and "\<And>x g. result_of (m g) = Inr x \<Longrightarrow> unwinding P (f x)"
  shows "unwinding P (bind m f)"
  unfolding unwinding_def
proof
  fix g
  obtain l r g' where m: "m g = (l, r, g')" by (cases "m g")
  from assms(1) m have lr: "unwinds P l r"
    by (auto simp: unwinding_def calls_of_def result_of_def dest: spec[of _ g])
  show "unwinds P (calls_of (bind m f g)) (result_of (bind m f g))"
  proof (cases r)
    case (Inl e)
    with lr have "unwinds P l (Inl e :: error + 'b)" by (auto intro: unwinds_Inl)
    with m Inl show ?thesis by (simp add: bind_apply calls_of_def result_of_def)
  next
    case (Inr x)
    with lr have ql: "quiet l" by (simp add: unwinds_Inr)
    obtain l' r' g'' where f: "f x g' = (l', r', g'')" by (cases "f x g'")
    from m Inr have "result_of (m g) = Inr x" by (simp add: result_of_def)
    from assms(2)[OF this] f have "unwinds P l' r'"
      by (auto simp: unwinding_def calls_of_def result_of_def dest: spec[of _ g'])
    with ql have "unwinds P (l @ l') r'" by (rule unwinds_after_quiet)
    with m Inr f show ?thesis by (simp add: bind_apply calls_of_def result_of_def)
  qed
qed

lemma unwinding_bind: "unwinding P m \<Longrightarrow> (\<And>x. unwinding P (f x)) \<Longrightarrow> unwinding P (bind m f)"
  by (rule unwinding_bind_result)

lemma unwinding_seq: "unwinding P m \<Longrightarrow> unwinding P n \<Longrightarrow> unwinding P (seq m n)"
  by (simp add: seq_def unwinding_bind)

lemma unwinding_with_exit:
  assumes "propagates body" and "emits P body"
  shows "unwinding P (with_exit (CallExit u) ex closes body)"
  unfolding unwinding_def
proof
  fix g
  let ?w = "with_exit (CallExit u) ex closes body g"
  obtain l r g' where b: "body g = (l, r, g')" by (cases "body g")
  from assms(1) b have lr: "agree l r"
    by (auto simp: propagates_def calls_of_def result_of_def dest: spec[of _ g])
  from assms(2) b have calls: "list_all (\<lambda>x. P (fst x)) l"
    by (rule emits_calls)
  show "unwinds P (calls_of ?w) (result_of ?w)"
  proof (cases "ex (raised r)")
    case (Inl e2)
    with b have w: "calls_of ?w = l @ [(CallExit u, Some e2)]" "result_of ?w = Inl e2"
      by (simp_all add: with_exit_def calls_of_def result_of_def)
    from lr consider "quiet l" | k c e where "l = k @ [(c, Some e)]" "quiet k" "r = Inl e"
      unfolding agree_def by blast
    then show ?thesis
    proof cases
      case 1
      with w have "quiet l \<and> calls_of ?w = l @ [(CallExit u, Some e2)] \<and> result_of ?w = Inl e2"
        by simp
      then show ?thesis unfolding unwinds_def by blast
    next
      case 2
      with calls have "P c" by simp
      with 2 w have "quiet k \<and> P c \<and>
          calls_of ?w = k @ [(c, Some e), (CallExit u, Some e2)] \<and> result_of ?w = Inl e2"
        by simp
      then show ?thesis unfolding unwinds_def by blast
    qed
  next
    case (Inr none)
    with b have w: "calls_of ?w = l @ [(CallExit u, None)]" "result_of ?w = r"
      by (simp_all add: with_exit_def calls_of_def result_of_def)
    from lr consider "quiet l" | k c e where "l = k @ [(c, Some e)]" "quiet k" "r = Inl e"
      unfolding agree_def by blast
    then show ?thesis
    proof cases
      case 1
      with w have "quiet (calls_of ?w)" by (simp add: quiet_def)
      then show ?thesis by (simp add: unwinds_def)
    next
      case 2
      with calls have "P c" by simp
      with 2 w have "quiet k \<and> P c \<and>
          calls_of ?w = k @ [(c, Some e), (CallExit u, None)] \<and> result_of ?w = Inl e"
        by simp
      then show ?thesis unfolding unwinds_def by blast
    qed
  qed
qed

subsection \<open>Exceptions\<close>

lemma propagates_read_raster: "propagates (read_raster E url win)"
  unfolding read_raster_def by (intro propagates_rules)

lemma propagates_scan_key: "propagates (scan_key ti it key)"
  unfolding scan_key_def by (intro propagates_rules)

lemma propagates_scan_item: "propagates (scan_item ti it)"
  unfolding scan_item_def by (intro propagates_rules propagates_scan_key)

lemma propagates_scan_collection: "propagates (scan_collection tc ti c)"
  unfolding scan_collection_def by (intro propagates_rules propagates_scan_item)

lemma propagates_cell_bounds: "propagates (cell_bounds E)"
  unfolding cell_bounds_def by (intro propagates_rules)

lemma propagates_cell_catalog: "propagates (cell_catalog E url tc ti)"
  unfolding cell_catalog_def by (intro propagates_rules propagates_scan_collection)

lemma propagates_window_body: "propagates (window_body E rd)"
  unfolding window_body_def by (intro propagates_rules)

lemma emits_window_body: "emits inside_with (window_body E rd)"
  unfolding window_body_def by (intro emits_rules) (simp_all add: inside_with_def)

lemma unwinding_cell_window: "unwinding inside_with (cell_window E)"
  unfolding cell_window_def
  by (intro unwinding_bind unwinding_seq unwinding_with_exit propagates_window_body
      emits_window_body unwinding_propagates[of "read_var v"  for v]
      unwinding_propagates[of "lift r" for r] unwinding_propagates[of "lib_call c r" for c r]
      unwinding_propagates[of "assign u" for u] unwinding_propagates[of "ret x" for x]
      propagates_rules)

lemma propagates_loop_body: "propagates (loop_body E f)"
  unfolding loop_body_def by (intro propagates_rules propagates_read_raster)

lemma propagates_cell_datacube: "propagates (cell_datacube E)"
  unfolding cell_datacube_def by (intro propagates_rules propagates_loop_body)

lemma propagates_cell_viewer: "propagates (cell_viewer E)"
  unfolding cell_viewer_def by (intro propagates_rules)

lemma propagates_cell_show: "propagates (cell_show E)"
  unfolding cell_show_def by (intro propagates_rules)

lemma unwinding_notebook: "unwinding inside_with (notebook E)"
  unfolding notebook_def
  by (intro unwinding_seq unwinding_cell_window unwinding_propagates
      propagates_cell_bounds propagates_cell_catalog propagates_cell_datacube
      propagates_cell_viewer propagates_cell_show)

text \<open>
  C7, as the code has it. No cell catches an exception, retries a call or reports an
  error, with one construct in the way: the \<^verbatim>\<open>with\<close> block of the window cell, which
  calls the reader's \<^verbatim>\<open>__exit__\<close> when its body ends, also when it ends with an
  exception. Whenever a package call raises in a run of the notebook or of the window
  cell, every call before it returned normally and either it is the last call and its
  exception is the outcome, or it was made inside the block (\<open>from_bounds\<close>,
  \<open>statistics\<close>) and the one call after it is the reader's \<^verbatim>\<open>__exit__\<close>; then the
  exception is the outcome if \<^verbatim>\<open>__exit__\<close> returns, and what \<^verbatim>\<open>__exit__\<close> raises is
  the outcome if it raises. In every other cell and in \<open>read_raster\<close> the call that
  raises is the last one made and its exception is the outcome. A generator that raises
  when the loop resumes it counts as a package call.
\<close>

theorem library_exceptions_propagate:
  "unwinding inside_with (notebook E) \<and>
   unwinding inside_with (cell_window E) \<and>
   raises_through (cell_bounds E) \<and>
   raises_through (cell_catalog E url tgt_collection tgt_item) \<and>
   raises_through (read_raster E file_url win) \<and>
   raises_through (cell_datacube E) \<and>
   raises_through (cell_viewer E) \<and>
   raises_through (cell_show E)"
  by (intro conjI propagates_raises_through propagates_cell_bounds
      propagates_cell_catalog propagates_read_raster
      propagates_cell_datacube propagates_cell_viewer propagates_cell_show
      unwinding_notebook unwinding_cell_window)

theorem library_exceptions_propagate_witness:
  "unwinds inside_with (calls_of (notebook sample_env_no_window fresh))
     (result_of (notebook sample_env_no_window fresh) :: error + unit) \<and>
   drop 10 (calls_of (notebook sample_env_no_window fresh)) =
     [(CallFromBounds (1 / 2) 1 (5 / 2) (7 / 2) (1, 0, 0, 0, - 1, 4), Some (LibraryError ''WindowError'')),
      (CallExit url_2000, None)] \<and>
   quiet (take 10 (calls_of (notebook sample_env_no_window fresh))) \<and>
   result_of (notebook sample_env_no_window fresh) = Inl (LibraryError ''WindowError'') \<and>
   (CallOpenDataset url_2001, Some (LibraryError ''RasterioIOError''))
      \<in> set (calls_of (notebook sample_env_offline fresh)) \<and>
   result_of (cell_datacube sample_env_offline sample_globals) = Inl (LibraryError ''RasterioIOError'') \<and>
   last (calls_of (cell_datacube sample_env_offline sample_globals)) =
     (CallOpenDataset url_2001, Some (LibraryError ''RasterioIOError''))"
proof -
  have run: "drop 10 (calls_of (notebook sample_env_no_window fresh)) =
     [(CallFromBounds (1 / 2) 1 (5 / 2) (7 / 2) (1, 0, 0, 0, - 1, 4), Some (LibraryError ''WindowError'')),
      (CallExit url_2000, None)]"
    "quiet (take 10 (calls_of (notebook sample_env_no_window fresh)))"
    "result_of (notebook sample_env_no_window fresh) = Inl (LibraryError ''WindowError'')"
    by code_simp+
  have mem: "(CallOpenDataset url_2001, Some (LibraryError ''RasterioIOError''))
      \<in> set (calls_of (notebook sample_env_offline fresh))"
    "(CallOpenDataset url_2001, Some (LibraryError ''RasterioIOError''))
      \<in> set (calls_of (cell_datacube sample_env_offline sample_globals))"
    by code_simp+
  from library_exceptions_propagate[of sample_env_no_window]
  have "unwinding inside_with (notebook sample_env_no_window)"
    by (rule conjunct1)
  then have u: "unwinds inside_with (calls_of (notebook sample_env_no_window fresh))
     (result_of (notebook sample_env_no_window fresh))"
    unfolding unwinding_def by (rule spec)
  from library_exceptions_propagate[of sample_env_offline]
  have "raises_through (cell_datacube sample_env_offline)" by blast
  with mem(2) have loop:
    "result_of (cell_datacube sample_env_offline sample_globals) = Inl (LibraryError ''RasterioIOError'')"
    "last (calls_of (cell_datacube sample_env_offline sample_globals)) =
       (CallOpenDataset url_2001, Some (LibraryError ''RasterioIOError''))"
    unfolding raises_through_def by blast+
  from u run mem(1) loop show ?thesis
    by (intro conjI)
qed

text \<open>
  C7 as stated fails when the reader cannot be closed either. In the sample world with
  a transform that \<open>from_bounds\<close> rejects and a reader whose \<^verbatim>\<open>__exit__\<close> fails, the
  call to \<open>from_bounds\<close> raises its error inside the \<^verbatim>\<open>with\<close> block, the block calls
  \<^verbatim>\<open>__exit__\<close>, and the exception that reaches the caller is the one \<^verbatim>\<open>__exit__\<close>
  raised, not the one \<open>from_bounds\<close> raised.
\<close>

theorem exception_replaced_by_exit_counterexample:
  "(CallFromBounds (1 / 2) 1 (5 / 2) (7 / 2) (1, 0, 0, 0, - 1, 4), Some (LibraryError ''WindowError''))
      \<in> set (calls_of (notebook sample_env_close_fails fresh)) \<and>
   last (calls_of (notebook sample_env_close_fails fresh)) =
     (CallExit url_2000, Some (LibraryError ''RasterioIOError'')) \<and>
   result_of (notebook sample_env_close_fails fresh) = Inl (LibraryError ''RasterioIOError'') \<and>
   result_of (notebook sample_env_close_fails fresh) \<noteq> Inl (LibraryError ''WindowError'')"
  by code_simp

subsection \<open>What the cells leave alone\<close>

lemma keeps_read_raster: "keeps v (read_raster E url win)"
  by (simp add: keeps_def read_raster_pure globals_of_def)

lemma keeps_cell_bounds:
  "keeps (\<lambda>g. g\<lparr>v_geometry := None, v_bounds := None\<rparr>) (cell_bounds E)"
  unfolding cell_bounds_def by (intro keeps_rules) simp_all

lemma keeps_cell_catalog:
  "keeps (\<lambda>g. g\<lparr>v_file_store := None, v_catalog := None, v_collection := None,
               v_items := None, v_item := None, v_key := None\<rparr>)
     (cell_catalog E url tc ti)"
  unfolding cell_catalog_def scan_collection_def scan_item_def scan_key_def
  by (intro keeps_rules) simp_all

lemma keeps_cell_window:
  "keeps (\<lambda>g. g\<lparr>v_src := None, v_window := None, v_stats := None, files_written := []\<rparr>)
     (cell_window E)"
  unfolding cell_window_def window_body_def by (intro keeps_rules) simp_all

lemma keeps_cell_datacube:
  "keeps (\<lambda>g. g\<lparr>v_first_run := None, v_f := None, v_datacube := None, v_d := None\<rparr>)
     (cell_datacube E)"
  unfolding cell_datacube_def loop_body_def
  by (intro keeps_rules keeps_read_raster) simp_all

lemma keeps_cell_viewer: "keeps (\<lambda>g. g\<lparr>v_viewer := None\<rparr>) (cell_viewer E)"
  unfolding cell_viewer_def by (intro keeps_rules) simp

lemma keeps_cell_show: "keeps (\<lambda>g. g\<lparr>v_viewer := None\<rparr>) (cell_show E)"
  unfolding cell_show_def by (intro keeps_rules) simp

text \<open>The files the window cell writes: none, or the statistics file of the raster it opened.\<close>

lemma window_body_files:
  "files_written (globals_of (window_body E rd g)) = files_written g \<or>
   (\<exists>p. stats_sidecar rd = Some p \<and>
        files_written (globals_of (window_body E rd g)) = files_written g @ [p])"
  by (simp add: window_body_def stmt_defs globals_of_def
      split: option.split sum.split prod.split)

lemma with_exit_files:
  assumes "\<And>g. files_written (closes g) = files_written g"
  shows "files_written (globals_of (with_exit c ex closes body g)) =
         files_written (globals_of (body g))"
  using assms by (simp add: with_exit_def globals_of_def split: prod.split sum.split)

lemma cell_window_files:
  "files_written (globals_of (cell_window E g)) = files_written g \<or>
   (\<exists>f rd p. rasterio_open E f = Inr rd \<and> stats_sidecar rd = Some p \<and>
      files_written (globals_of (cell_window E g)) = files_written g @ [p])"
proof (cases "v_file_store g")
  case None
  then show ?thesis by (simp add: cell_window_def stmt_defs globals_of_def)
next
  case (Some fs)
  show ?thesis
  proof (cases "index_at fs 0")
    case (Inl e)
    with Some show ?thesis by (simp add: cell_window_def stmt_defs globals_of_def)
  next
    case f0: (Inr f0)
    show ?thesis
    proof (cases "rasterio_open E f0")
      case (Inl e)
      with Some f0 show ?thesis by (simp add: cell_window_def stmt_defs globals_of_def)
    next
      case rd: (Inr rd)
      show ?thesis
      proof (cases "enter rd")
        case (Inl e)
        with Some f0 rd show ?thesis by (simp add: cell_window_def stmt_defs globals_of_def)
      next
        case (Inr u)
        let ?g1 = "g\<lparr>v_src := Some \<lparr>reader = rd, closed = False\<rparr>\<rparr>"
        let ?w = "with_exit (CallExit f0) (exit rd)
                    (\<lambda>g. g\<lparr>v_src := Some \<lparr>reader = rd, closed = True\<rparr>\<rparr>) (window_body E rd)"
        have "files_written (globals_of (cell_window E g)) = files_written (globals_of (?w ?g1))"
          using Some f0 rd Inr
          by (simp add: cell_window_def stmt_defs globals_of_def
              split: prod.split sum.split option.split)
        also have "\<dots> = files_written (globals_of (window_body E rd ?g1))"
          by (rule with_exit_files) simp
        finally show ?thesis
          using window_body_files[of E rd ?g1] rd by auto
      qed
    qed
  qed
qed

text \<open>
  C3. When the catalog opens, its listing of collections runs to the end, and so does
  the listing of items of every collection whose id is the target, the catalog cell
  completes and leaves in \<open>file_store\<close> exactly the hrefs of the assets stored under the
  target key in the items of the collections with the target id, in the order the
  catalog lists them; every other asset key and every other collection adds nothing.
  Besides \<open>file_store\<close> the cell changes only its own \<open>catalog\<close> and loop variables.
  (Each asset table is a Python dict, so it holds a key once.)
\<close>

theorem file_store_lists_matching_hrefs:
  assumes "client_open E url = Inr cat"
    and "drain (get_collections cat) = Inr cols"
    and "list_all (\<lambda>c. collection_id c = tc \<longrightarrow> (\<exists>its. drain (get_all_items c) = Inr its)) cols"
    and "dict_keys_unique cols"
  shows "result_of (cell_catalog E url tc ti g) = Inr () \<and>
         v_file_store (globals_of (cell_catalog E url tc ti g)) = Some (spec_file_store tc ti cols) \<and>
         (globals_of (cell_catalog E url tc ti g))
            \<lparr>v_file_store := None, v_catalog := None, v_collection := None,
             v_items := None, v_item := None, v_key := None\<rparr> =
         g\<lparr>v_file_store := None, v_catalog := None, v_collection := None,
           v_items := None, v_item := None, v_key := None\<rparr>"
proof -
  from cell_catalog_run[OF assms, of ti g] obtain l g' where
    "cell_catalog E url tc ti g = (l, Inr (), g')"
    and "v_file_store g' = Some (spec_file_store tc ti cols)"
    by blast
  moreover from keepsD[OF keeps_cell_catalog this(1)]
  have "g'\<lparr>v_file_store := None, v_catalog := None, v_collection := None,
           v_items := None, v_item := None, v_key := None\<rparr> =
        g\<lparr>v_file_store := None, v_catalog := None, v_collection := None,
          v_items := None, v_item := None, v_key := None\<rparr>" .
  ultimately show ?thesis
    by (simp add: result_of_def globals_of_def)
qed

theorem file_store_lists_matching_hrefs_witness:
  "result_of (cell_catalog sample_env catalog_url target_collection target_item fresh) = Inr () \<and>
   v_file_store (globals_of (cell_catalog sample_env catalog_url target_collection target_item fresh)) =
     Some [url_2000, url_2001]"
proof -
  have a: "client_open sample_env catalog_url = Inr sample_catalog"
    by (simp add: sample_env_def)
  have b: "drain (get_collections sample_catalog) =
     Inr [\<lparr> collection_id = ''lc_glad.glcluc'',
        get_all_items = gen_of [\<lparr> assets = [(target_item, \<lparr> href = ''elsewhere.tif'' \<rparr>)] \<rparr>] \<rparr>,
      \<lparr> collection_id = target_collection,
        get_all_items = gen_of
          [\<lparr> assets = [(''thumbnail'', \<lparr> href = ''preview_2000.png'' \<rparr>),
                        (target_item, \<lparr> href = url_2000 \<rparr>)] \<rparr>,
           \<lparr> assets = [(target_item, \<lparr> href = url_2001 \<rparr>),
                        (''wv_mcd19a2v061.seasconv.m.yearly_sd_1km_s'', \<lparr> href = ''sd_2001.tif'' \<rparr>)] \<rparr>] \<rparr>]"
    by (simp add: sample_catalog_def)
  show ?thesis
    using file_store_lists_matching_hrefs[OF a b, of target_collection target_item fresh]
    by (simp add: dict_keys_unique_def items_of_def spec_file_store_def hrefs_under_def
        target_collection_def target_item_def)
qed

text \<open>
  C10, as the code has it. State is kept between the steps, in the interpreter: every
  cell leaves its variables behind, and only those. The bounds cell changes \<open>geometry\<close>
  and \<open>bounds\<close>; the catalog cell \<open>file_store\<close>, \<open>catalog\<close> and its loop variables; the
  window cell \<open>src\<close>, \<open>window\<close> and \<open>stats\<close>; the loop cell \<open>first_run\<close>, \<open>f\<close>,
  \<open>datacube\<close> and \<open>d\<close>; the viewer cell \<open>viewer\<close>; the last cell changes the viewer
  object in place and no variable; \<open>read_raster\<close> changes nothing. One file may be
  written: computing the statistics in the window cell saves them in the auxiliary file
  of the raster when GDAL can write one; no other cell writes a file. In particular,
  building the datacube leaves \<open>bounds\<close>, \<open>file_store\<close>, \<open>window\<close> and \<open>stats\<close> as they
  were, whether it ends normally or with an exception.
\<close>

theorem cells_change_only_their_results:
  "v_bounds (globals_of (cell_datacube E g)) = v_bounds g \<and>
   v_file_store (globals_of (cell_datacube E g)) = v_file_store g \<and>
   v_window (globals_of (cell_datacube E g)) = v_window g \<and>
   v_stats (globals_of (cell_datacube E g)) = v_stats g \<and>
   (globals_of (cell_bounds E g))\<lparr>v_geometry := None, v_bounds := None\<rparr> =
      g\<lparr>v_geometry := None, v_bounds := None\<rparr> \<and>
   (globals_of (cell_catalog E url tgt_collection tgt_item g))
      \<lparr>v_file_store := None, v_catalog := None, v_collection := None,
       v_items := None, v_item := None, v_key := None\<rparr> =
      g\<lparr>v_file_store := None, v_catalog := None, v_collection := None,
        v_items := None, v_item := None, v_key := None\<rparr> \<and>
   (globals_of (cell_window E g))
      \<lparr>v_src := None, v_window := None, v_stats := None, files_written := []\<rparr> =
      g\<lparr>v_src := None, v_window := None, v_stats := None, files_written := []\<rparr> \<and>
   (files_written (globals_of (cell_window E g)) = files_written g \<or>
    (\<exists>f rd p. rasterio_open E f = Inr rd \<and> stats_sidecar rd = Some p \<and>
       files_written (globals_of (cell_window E g)) = files_written g @ [p])) \<and>
   globals_of (read_raster E file_url win g) = g \<and>
   (globals_of (cell_datacube E g))
      \<lparr>v_first_run := None, v_f := None, v_datacube := None, v_d := None\<rparr> =
      g\<lparr>v_first_run := None, v_f := None, v_datacube := None, v_d := None\<rparr> \<and>
   (globals_of (cell_viewer E g))\<lparr>v_viewer := None\<rparr> = g\<lparr>v_viewer := None\<rparr> \<and>
   (globals_of (cell_show E g))\<lparr>v_viewer := None\<rparr> = g\<lparr>v_viewer := None\<rparr>"
proof -
  note dc = keeps_cell_datacube[of E]
  have "keeps v_bounds (cell_datacube E)" "keeps v_file_store (cell_datacube E)"
    "keeps v_window (cell_datacube E)" "keeps v_stats (cell_datacube E)"
    by (rule keeps_field[OF dc], simp)+
  then have four: "v_bounds (globals_of (cell_datacube E g)) = v_bounds g"
    "v_file_store (globals_of (cell_datacube E g)) = v_file_store g"
    "v_window (globals_of (cell_datacube E g)) = v_window g"
    "v_stats (globals_of (cell_datacube E g)) = v_stats g"
    by (simp_all add: keeps_def)
  have frames:
    "(globals_of (cell_bounds E g))\<lparr>v_geometry := None, v_bounds := None\<rparr> =
        g\<lparr>v_geometry := None, v_bounds := None\<rparr>"
    "(globals_of (cell_catalog E url tgt_collection tgt_item g))
        \<lparr>v_file_store := None, v_catalog := None, v_collection := None,
         v_items := None, v_item := None, v_key := None\<rparr> =
        g\<lparr>v_file_store := None, v_catalog := None, v_collection := None,
          v_items := None, v_item := None, v_key := None\<rparr>"
    "(globals_of (cell_window E g))
        \<lparr>v_src := None, v_window := None, v_stats := None, files_written := []\<rparr> =
        g\<lparr>v_src := None, v_window := None, v_stats := None, files_written := []\<rparr>"
    "globals_of (read_raster E file_url win g) = g"
    "(globals_of (cell_datacube E g))
        \<lparr>v_first_run := None, v_f := None, v_datacube := None, v_d := None\<rparr> =
        g\<lparr>v_first_run := None, v_f := None, v_datacube := None, v_d := None\<rparr>"
    "(globals_of (cell_viewer E g))\<lparr>v_viewer := None\<rparr> = g\<lparr>v_viewer := None\<rparr>"
    "(globals_of (cell_show E g))\<lparr>v_viewer := None\<rparr> = g\<lparr>v_viewer := None\<rparr>"
    using keeps_cell_bounds[of E] keeps_cell_catalog[of E url tgt_collection tgt_item]
      keeps_cell_window[of E] keeps_read_raster[of "\<lambda>g. g" E file_url win] dc
      keeps_cell_viewer[of E] keeps_cell_show[of E]
    unfolding keeps_def by blast+
  show ?thesis
    using four frames cell_window_files[of E g] by blast
qed

text \<open>
  C10 as stated fails on the sample world. The last cell changes the viewer in place:
  after it the viewer holds the datacube. The loop cell leaves its flag and working
  variables behind. And with a directory for GDAL's auxiliary files configured, the
  window cell writes the statistics file of the first raster there.
\<close>

theorem state_kept_between_steps_counterexample:
  "map_option datasets (v_viewer (globals_of (cell_show sample_env
      (sample_globals\<lparr>v_datacube := Some [(20001231, [[0, 1]])],
         v_viewer := Some \<lparr>value_range = (29, 6931), datasets = []\<rparr>\<rparr>)))) =
     Some [[(20001231, [[0, 1]])]] \<and>
   v_first_run sample_globals = None \<and> v_d sample_globals = None \<and> v_f sample_globals = None \<and>
   v_first_run (globals_of (cell_datacube sample_env sample_globals)) = Some False \<and>
   v_d (globals_of (cell_datacube sample_env sample_globals)) =
     Some [(20011231, [[100, 101], [110, 111], [120, 121]])] \<and>
   v_f (globals_of (cell_datacube sample_env sample_globals)) = Some url_2001 \<and>
   files_written sample_globals = [] \<and>
   files_written (globals_of (cell_window sample_env_pam sample_globals)) =
     [''/tmp/pam/000001_wv_mcd19a2v061.tif.aux.xml'']"
  by code_simp

subsection \<open>The loop of the datacube cell\<close>

lemma read_all_run:
  "result_of (read_all E w fs g) = read_results E w fs \<and> globals_of (read_all E w fs g) = g"
proof (induction fs)
  case Nil
  then show ?case by (simp add: ret_def result_of_def globals_of_def)
next
  case (Cons f fs)
  obtain l r g' where rest: "read_all E w fs g = (l, r, g')" by (cases "read_all E w fs g")
  with Cons have "r = read_results E w fs" "g' = g"
    by (simp_all add: result_of_def globals_of_def)
  with rest show ?case
    by (simp add: bind_apply ret_def read_raster_pure result_of_def globals_of_def
        split: sum.split)
qed

lemma loop_body_first:
  assumes "v_first_run g = Some True" and "v_window g = Some w"
  shows "loop_body E f g =
     (case read_result E f (ArgWindow w) of
        Inl e \<Rightarrow> (read_calls E f (ArgWindow w), Inl e, g)
      | Inr d \<Rightarrow> (read_calls E f (ArgWindow w), Inr (),
                   g\<lparr>v_datacube := Some d, v_first_run := Some False\<rparr>))"
  using assms by (simp add: loop_body_def stmt_defs read_raster_pure split: sum.split)

lemma loop_body_later:
  assumes "v_first_run g = Some False" and "v_window g = Some w" and "v_datacube g = Some acc"
  shows "loop_body E f g =
     (case read_result E f (ArgWindow w) of
        Inl e \<Rightarrow> (read_calls E f (ArgWindow w), Inl e, g)
      | Inr d \<Rightarrow> (read_calls E f (ArgWindow w) @ [(CallConcat, None)], Inr (),
                   g\<lparr>v_d := Some d, v_datacube := Some (concat_time [acc, d])\<rparr>))"
  using assms by (simp add: loop_body_def stmt_defs read_raster_pure raised_def split: sum.split)

lemma loop_tail:
  assumes "v_first_run g = Some False" and "v_window g = Some w" and "v_datacube g = Some acc"
  shows "case read_results E w fs of
           Inl e \<Rightarrow> result_of (for_each (\<lambda>f g. g\<lparr>v_f := Some f\<rparr>) (loop_body E) fs g) = Inl e
         | Inr ds \<Rightarrow> for_each (\<lambda>f g. g\<lparr>v_f := Some f\<rparr>) (loop_body E) fs g =
             (concat (map (\<lambda>f. read_calls E f (ArgWindow w) @ [(CallConcat, None)]) fs), Inr (),
              g\<lparr>v_f := (if fs = [] then v_f g else Some (last fs)),
                v_d := (if ds = [] then v_d g else Some (last ds)),
                v_datacube := Some (foldl (\<lambda>acc x. concat_time [acc, x]) acc ds)\<rparr>)"
  using assms
proof (induction fs arbitrary: g acc)
  case Nil
  then show ?case by (cases g) (simp add: ret_def)
next
  case (Cons f fs)
  let ?loop = "for_each (\<lambda>f g. g\<lparr>v_f := Some f\<rparr>) (loop_body E)"
  let ?gf = "g\<lparr>v_f := Some f\<rparr>"
  have pref: "v_first_run ?gf = Some False" "v_window ?gf = Some w" "v_datacube ?gf = Some acc"
    using Cons.prems by simp_all
  note body = loop_body_later[OF pref, of E f]
  have unroll: "?loop (f # fs) g = seq (loop_body E f) (?loop fs) ?gf"
    by (simp add: seq_assign)
  show ?case
  proof (cases "read_result E f (ArgWindow w)")
    case (Inl e)
    with body unroll show ?thesis by (simp add: seq_def bind_apply result_of_def)
  next
    case (Inr d)
    let ?g1 = "?gf\<lparr>v_d := Some d, v_datacube := Some (concat_time [acc, d])\<rparr>"
    from body Inr have one:
      "loop_body E f ?gf = (read_calls E f (ArgWindow w) @ [(CallConcat, None)], Inr (), ?g1)"
      by simp
    have pre: "v_first_run ?g1 = Some False" "v_window ?g1 = Some w"
        "v_datacube ?g1 = Some (concat_time [acc, d])"
      using Cons.prems by simp_all
    note ih = Cons.IH[OF pre]
    show ?thesis
    proof (cases "read_results E w fs")
      case (Inl e)
      with ih have "result_of (?loop fs ?g1) = Inl e" by simp
      then obtain l g' where "?loop fs ?g1 = (l, Inl e, g')"
        by (cases "?loop fs ?g1") (simp add: result_of_def)
      with one unroll Inr Inl show ?thesis by (simp add: seq_def bind_apply result_of_def)
    next
      case (Inr ds)
      with ih have "?loop fs ?g1 =
         (concat (map (\<lambda>f. read_calls E f (ArgWindow w) @ [(CallConcat, None)]) fs), Inr (),
          ?g1\<lparr>v_f := (if fs = [] then v_f ?g1 else Some (last fs)),
               v_d := (if ds = [] then v_d ?g1 else Some (last ds)),
               v_datacube := Some (foldl (\<lambda>acc x. concat_time [acc, x]) (concat_time [acc, d]) ds)\<rparr>)"
        by simp
      with one unroll \<open>read_result E f (ArgWindow w) = Inr d\<close> Inr show ?thesis
        by (simp add: seq_def bind_apply)
    qed
  qed
qed

lemma cell_datacube_empty:
  assumes "v_file_store g = Some []"
  shows "cell_datacube E g = ([], Inr (), g\<lparr>v_first_run := Some True\<rparr>)"
  using assms by (simp add: cell_datacube_def stmt_defs)

lemma cell_datacube_run:
  assumes "v_file_store g = Some (f # rest)" and "v_window g = Some w"
  shows "case read_results E w (f # rest) of
           Inl e \<Rightarrow> result_of (cell_datacube E g) = Inl e
         | Inr ds \<Rightarrow> cell_datacube E g =
             (loop_calls E w (f # rest), Inr (),
              g\<lparr>v_first_run := Some False,
                v_f := Some (last (f # rest)),
                v_d := (if tl ds = [] then v_d g else Some (last ds)),
                v_datacube := spec_fold_concat ds\<rparr>)"
proof -
  let ?loop = "for_each (\<lambda>f g. g\<lparr>v_f := Some f\<rparr>) (loop_body E)"
  let ?g0 = "g\<lparr>v_first_run := Some True, v_f := Some f\<rparr>"
  have start: "cell_datacube E g =
      (case seq (loop_body E f) (?loop rest) ?g0 of (l, r, g') \<Rightarrow> (l, r, g'))"
    using assms by (simp add: cell_datacube_def stmt_defs)
  have pre0: "v_first_run ?g0 = Some True" "v_window ?g0 = Some w" using assms by simp_all
  note first = loop_body_first[OF pre0, of E f]
  show ?thesis
  proof (cases "read_result E f (ArgWindow w)")
    case (Inl e)
    with first start show ?thesis by (simp add: seq_def bind_apply result_of_def)
  next
    case (Inr d)
    let ?g1 = "?g0\<lparr>v_datacube := Some d, v_first_run := Some False\<rparr>"
    from first Inr have one: "loop_body E f ?g0 = (read_calls E f (ArgWindow w), Inr (), ?g1)"
      by simp
    have pre: "v_first_run ?g1 = Some False" "v_window ?g1 = Some w" "v_datacube ?g1 = Some d"
      using assms by simp_all
    note tail = loop_tail[OF pre, of E rest]
    show ?thesis
    proof (cases "read_results E w rest")
      case (Inl e)
      with tail have "result_of (?loop rest ?g1) = Inl e" by simp
      then obtain l g' where "?loop rest ?g1 = (l, Inl e, g')"
        by (cases "?loop rest ?g1") (simp add: result_of_def)
      with one start Inr Inl show ?thesis by (simp add: seq_def bind_apply result_of_def)
    next
      case (Inr ds)
      with tail have "?loop rest ?g1 =
         (concat (map (\<lambda>f. read_calls E f (ArgWindow w) @ [(CallConcat, None)]) rest), Inr (),
          ?g1\<lparr>v_f := (if rest = [] then v_f ?g1 else Some (last rest)),
               v_d := (if ds = [] then v_d ?g1 else Some (last ds)),
               v_datacube := Some (foldl (\<lambda>acc x. concat_time [acc, x]) d ds)\<rparr>)"
        by simp
      with one start \<open>read_result E f (ArgWindow w) = Inr d\<close> Inr show ?thesis
        by (simp add: seq_def bind_apply loop_calls_def spec_fold_concat_def)
    qed
  qed
qed

text \<open>
  C8. Let \<open>file_store\<close> and \<open>window\<close> be assigned. For a non-empty \<open>file_store\<close> the loop
  cell and the list \<open>[read_raster(f, window) for f in file_store]\<close> fail together, with
  the same exception, and when the reads succeed the cell ends normally with \<open>datacube\<close>
  the left-associated fold of the binary \<open>concat\<close> over that list, in list order. For an
  empty \<open>file_store\<close> the cell ends normally and \<open>datacube\<close> is what it was before:
  nothing is assigned to it.
\<close>

theorem loop_is_left_fold_of_concat:
  assumes "v_file_store g = Some fs" and "v_window g = Some w"
  shows "(fs \<noteq> [] \<longrightarrow>
            (case result_of (read_all E w fs g) of
               Inl e \<Rightarrow> result_of (cell_datacube E g) = Inl e
             | Inr ds \<Rightarrow> result_of (cell_datacube E g) = Inr () \<and>
                 v_datacube (globals_of (cell_datacube E g)) = spec_fold_concat ds \<and>
                 spec_fold_concat ds \<noteq> None)) \<and>
         (fs = [] \<longrightarrow>
            result_of (cell_datacube E g) = Inr () \<and>
            v_datacube (globals_of (cell_datacube E g)) = v_datacube g)"
proof (cases fs)
  case Nil
  with assms(1) show ?thesis
    by (simp add: cell_datacube_empty result_of_def globals_of_def)
next
  case (Cons f rest)
  from assms have run: "case read_results E w (f # rest) of
           Inl e \<Rightarrow> result_of (cell_datacube E g) = Inl e
         | Inr ds \<Rightarrow> cell_datacube E g =
             (loop_calls E w (f # rest), Inr (),
              g\<lparr>v_first_run := Some False,
                v_f := Some (last (f # rest)),
                v_d := (if tl ds = [] then v_d g else Some (last ds)),
                v_datacube := spec_fold_concat ds\<rparr>)"
    unfolding Cons by (rule cell_datacube_run)
  have nonempty: "read_results E w (f # rest) = Inr ds \<Longrightarrow> spec_fold_concat ds \<noteq> None" for ds
    by (auto simp: spec_fold_concat_def split: sum.splits list.splits)
  have "result_of (read_all E w fs g) = read_results E w (f # rest)"
    using Cons read_all_run[of E w fs g] by simp
  with run nonempty Cons show ?thesis
    by (auto simp: result_of_def globals_of_def split: sum.splits)
qed

theorem loop_is_left_fold_of_concat_witness:
  "v_datacube (globals_of (cell_datacube sample_env sample_globals)) =
     Some [(20001231, [[0, 1], [10, 11], [20, 21]]), (20011231, [[100, 101], [110, 111], [120, 121]])] \<and>
   v_datacube (globals_of (cell_datacube sample_env sample_globals_empty)) = None"
proof -
  have fs: "v_file_store sample_globals = Some [url_2000, url_2001]"
    and w: "v_window sample_globals = Some sample_window"
    by (simp_all add: sample_globals_def)
  have fs0: "v_file_store sample_globals_empty = Some []"
    and w0: "v_window sample_globals_empty = Some sample_window"
    and d0: "v_datacube sample_globals_empty = None"
    by (simp_all add: sample_globals_empty_def fresh_def)
  have reads: "result_of (read_all sample_env sample_window [url_2000, url_2001] sample_globals) =
      Inr [[(20001231, [[0, 1], [10, 11], [20, 21]])], [(20011231, [[100, 101], [110, 111], [120, 121]])]]"
    by code_simp
  have fold: "spec_fold_concat
      [[(20001231, [[0, 1], [10, 11], [20, 21]])], [(20011231, [[100, 101], [110, 111], [120, 121]])]] =
      Some [(20001231, [[0, 1], [10, 11], [20, 21]]), (20011231, [[100, 101], [110, 111], [120, 121]])]"
    by (simp add: spec_fold_concat_def concat_time_def)
  from loop_is_left_fold_of_concat[OF fs w, of sample_env] reads fold
  have one: "v_datacube (globals_of (cell_datacube sample_env sample_globals)) =
     Some [(20001231, [[0, 1], [10, 11], [20, 21]]), (20011231, [[100, 101], [110, 111], [120, 121]])]"
    by simp
  from loop_is_left_fold_of_concat[OF fs0 w0, of sample_env] d0
  have two: "v_datacube (globals_of (cell_datacube sample_env sample_globals_empty)) = None"
    by simp
  from one two show ?thesis by simp
qed

subsection \<open>Counting calls\<close>

lemma calls_where_append: "calls_where P (l @ l') = calls_where P l @ calls_where P l'"
  by (simp add: calls_where_def)

lemma calls_where_Nil: "calls_where P [] = []"
  by (simp add: calls_where_def)

lemma calls_where_Cons:
  "calls_where P (x # l) = (if P (fst x) then fst x # calls_where P l else calls_where P l)"
  by (simp add: calls_where_def)

lemma calls_where_none:
  assumes "list_all (\<lambda>x. Q (fst x)) l" and "\<And>c. Q c \<Longrightarrow> \<not> P c"
  shows "calls_where P l = []"
  using assms by (auto simp: calls_where_def list_all_iff filter_empty_conv)

lemma emits_read_raster_no_concat:
  "emits (\<lambda>c. stage c = 4 \<and> \<not> is_concat c) (read_raster E url win)"
  unfolding read_raster_def by (intro emits_rules) simp_all

lemma emits_read_raster: "emits (\<lambda>c. stage c = 4) (read_raster E url win)"
  by (rule emits_weaken[OF emits_read_raster_no_concat]) simp

lemma emits_cell_bounds: "emits (\<lambda>c. stage c = 0) (cell_bounds E)"
  unfolding cell_bounds_def by (intro emits_rules) simp

lemma emits_scan_item: "emits (\<lambda>c. c = CallToDict) (scan_item ti it)"
  unfolding scan_item_def scan_key_def
  by (intro emits_rules) simp_all

lemma emits_scan_collection: "emits (\<lambda>c. stage c = 2) (scan_collection tc ti c)"
  unfolding scan_collection_def scan_item_def scan_key_def
  by (intro emits_rules) simp_all

lemma emits_cell_catalog: "emits (\<lambda>c. stage c = 1 \<or> stage c = 2) (cell_catalog E url tc ti)"
  unfolding cell_catalog_def scan_collection_def scan_item_def scan_key_def
  by (intro emits_rules) simp_all

lemma emits_cell_window: "emits (\<lambda>c. stage c = 3) (cell_window E)"
  unfolding cell_window_def window_body_def by (intro emits_rules) simp_all

lemma emits_cell_datacube: "emits (\<lambda>c. stage c = 4) (cell_datacube E)"
  unfolding cell_datacube_def loop_body_def
  by (intro emits_rules emits_read_raster) simp_all

lemma emits_cell_viewer: "emits (\<lambda>c. stage c = 5 \<and> \<not> is_add_dataset c) (cell_viewer E)"
  unfolding cell_viewer_def by (intro emits_rules) simp

lemma emits_cell_show: "emits (\<lambda>c. stage c = 5) (cell_show E)"
  unfolding cell_show_def by (intro emits_rules) simp_all

lemma read_calls_open:
  "calls_where is_open_dataset (read_calls E f win) = [CallOpenDataset f]"
  unfolding read_calls_def read_raster_def calls_of_def
  by (simp add: stmt_defs calls_where_def split: sum.split prod.split)

lemma read_calls_no_concat: "calls_where is_concat (read_calls E f win) = []"
proof -
  obtain l r g where run: "read_raster E f win fresh = (l, r, g)"
    by (cases "read_raster E f win fresh")
  from emits_calls[OF emits_read_raster_no_concat run] have "calls_where is_concat l = []"
    by (rule calls_where_none) auto
  with run show ?thesis by (simp add: read_calls_def calls_of_def)
qed

lemma read_success:
  assumes "read_result E f (ArgWindow w) = Inr d"
  shows "time_coords d = dates_of E f \<and>
         calls_where is_isel (read_calls E f (ArgWindow w)) =
           [CallIsel (py_int (col_off w)) (py_int (float_add (col_off w) (width w)))
                     (py_int (row_off w)) (py_int (float_add (row_off w) (height w)))]"
  using assms
  unfolding read_result_def read_calls_def read_raster_def calls_of_def result_of_def dates_of_def
  by (auto simp: stmt_defs calls_where_def time_coords_def expand_dims_def comp_def raised_def
      int_of_float_def split: sum.splits prod.splits if_splits)

lemma loop_calls_open:
  "calls_where is_open_dataset (loop_calls E w fs) = map CallOpenDataset fs"
proof (cases fs)
  case Nil
  then show ?thesis by (simp add: loop_calls_def calls_where_Nil)
next
  case (Cons f rest)
  have "calls_where is_open_dataset
      (concat (map (\<lambda>f'. read_calls E f' (ArgWindow w) @ [(CallConcat, None)]) rest)) =
      map CallOpenDataset rest"
    by (induction rest) (simp_all add: calls_where_Nil calls_where_append calls_where_Cons read_calls_open)
  with Cons show ?thesis
    by (simp add: loop_calls_def calls_where_append read_calls_open)
qed

lemma loop_calls_concat:
  "length (calls_where is_concat (loop_calls E w fs)) = length fs - 1"
proof (cases fs)
  case Nil
  then show ?thesis by (simp add: loop_calls_def calls_where_Nil)
next
  case (Cons f rest)
  have "length (calls_where is_concat
      (concat (map (\<lambda>f'. read_calls E f' (ArgWindow w) @ [(CallConcat, None)]) rest))) =
      length rest"
    by (induction rest)
       (simp_all add: calls_where_Nil calls_where_append calls_where_Cons read_calls_no_concat)
  with Cons show ?thesis
    by (simp add: loop_calls_def calls_where_append read_calls_no_concat)
qed

lemma read_results_each:
  "read_results E w fs = Inr ds \<Longrightarrow>
     list_all2 (\<lambda>f d. read_result E f (ArgWindow w) = Inr d) fs ds"
  by (induction fs arbitrary: ds) (auto split: sum.splits)


lemma fold_times:
  "time_coords (foldl (\<lambda>acc x. concat_time [acc, x]) acc ds) =
     time_coords acc @ concat (map time_coords ds)"
  by (induction ds arbitrary: acc) (simp_all add: time_coords_def concat_time_def)

lemma datacube_times:
  assumes "read_results E w fs = Inr ds" and "spec_fold_concat ds = Some dc"
  shows "time_coords dc = concat (map (dates_of E) fs)"
proof -
  from read_results_each[OF assms(1)] have "map time_coords ds = map (dates_of E) fs"
    using read_success[of E _ w]
    by (auto simp: list_all2_conv_all_nth list_eq_iff_nth_eq)
  moreover from assms(2) have "time_coords dc = concat (map time_coords ds)"
    by (cases ds) (auto simp: spec_fold_concat_def fold_times)
  ultimately show ?thesis by simp
qed

subsection \<open>How many calls a step makes\<close>

lemma listing_round_requests:
  assumes "listing_calls tc c l"
  shows "calls_where is_get_all_items l =
           (if collection_id c = tc then [CallGetAllItems (collection_id c)] else [])"
proof -
  let ?A = "if collection_id c = tc then [(CallGetAllItems (collection_id c), None)] else []"
  let ?F = "filter (\<lambda>x. x = (CallToDict, None)) l"
  from assms have "l = ?A @ ?F" by (simp only: listing_calls_def)
  then have "calls_where is_get_all_items l = calls_where is_get_all_items (?A @ ?F)"
    by (rule arg_cong)
  moreover have "calls_where is_get_all_items ?F = []"
    by (auto simp: calls_where_def filter_empty_conv)
  ultimately show ?thesis
    by (simp add: calls_where_append calls_where_Cons calls_where_Nil)
qed

lemma listing_requests:
  "list_all2 (listing_calls tc) cols ls \<Longrightarrow>
   calls_where is_get_all_items (concat ls) =
     map (\<lambda>c. CallGetAllItems (collection_id c)) (filter (\<lambda>c. collection_id c = tc) cols)"
proof (induction cols ls rule: list_all2_induct)
  case Nil
  then show ?case by (simp add: calls_where_Nil)
next
  case (Cons c cols l ls)
  from listing_round_requests[OF Cons.hyps(1)] Cons.IH show ?case
    by (simp add: calls_where_append)
qed

lemma cell_catalog_requests:
  assumes "client_open E url = Inr cat"
    and "drain (get_collections cat) = Inr cols"
    and "list_all (\<lambda>c. collection_id c = tc \<longrightarrow> (\<exists>its. drain (get_all_items c) = Inr its)) cols"
    and "dict_keys_unique cols"
  shows "calls_where is_get_all_items (calls_of (cell_catalog E url tc ti g)) =
           map (\<lambda>c. CallGetAllItems (collection_id c)) (filter (\<lambda>c. collection_id c = tc) cols)"
proof -
  from cell_catalog_run[OF assms, of ti g] obtain ls g' where
    run: "cell_catalog E url tc ti g =
            ((CallClientOpen url, None) # (CallGetCollections, None) # concat ls, Inr (), g')"
    and each: "list_all2 (listing_calls tc) cols ls"
    by blast
  from listing_requests[OF each] run show ?thesis
    by (simp add: calls_of_def calls_where_Cons)
qed

lemma window_body_calls: "length (calls_of (window_body E rd g)) \<le> 2"
  by (simp add: window_body_def stmt_defs calls_of_def split: sum.split option.split prod.split)

lemma with_exit_calls:
  "\<exists>x. calls_of (with_exit c ex closes body g) = calls_of (body g) @ [(c, x)]"
  by (simp add: with_exit_def calls_of_def split: sum.split prod.split)

lemma filter_length_le: "length l \<le> n \<Longrightarrow> length (calls_where P l) \<le> n"
  by (metis calls_where_def le_trans length_filter_le length_map)

lemma cell_window_calls:
  "length (calls_of (cell_window E g)) \<le> 5 \<and>
   length (calls_where (\<lambda>c. \<not> is_enter c \<and> \<not> is_exit c) (calls_of (cell_window E g))) \<le> 3"
proof -
  let ?P = "\<lambda>c. \<not> is_enter c \<and> \<not> is_exit c"
  have short: "length l \<le> 5 \<and> length (calls_where ?P l) \<le> 3" if "length l \<le> 1" for l :: "logged list"
    using that filter_length_le[OF that, of ?P] by simp
  show ?thesis
  proof (cases "v_file_store g")
    case None
    then have "calls_of (cell_window E g) = []"
      by (simp add: cell_window_def stmt_defs calls_of_def)
    then show ?thesis by (simp add: calls_where_Nil)
  next
    case (Some fs)
    show ?thesis
    proof (cases "index_at fs 0")
      case (Inl e)
      with Some have "calls_of (cell_window E g) = []"
        by (simp add: cell_window_def stmt_defs calls_of_def)
      then show ?thesis by (simp add: calls_where_Nil)
    next
      case f0: (Inr f0)
      show ?thesis
      proof (cases "rasterio_open E f0")
        case (Inl e)
        with Some f0 have "length (calls_of (cell_window E g)) \<le> 1"
          by (simp add: cell_window_def stmt_defs calls_of_def)
        then show ?thesis by (rule short)
      next
        case rd: (Inr rd)
        show ?thesis
        proof (cases "enter rd")
          case (Inl e)
          with Some f0 rd have "calls_of (cell_window E g) =
              [(CallRasterioOpen f0, None), (CallEnter f0, Some e)]"
            by (simp add: cell_window_def stmt_defs calls_of_def raised_def)
          then show ?thesis by (simp add: calls_where_def)
        next
          case (Inr u)
          let ?g1 = "g\<lparr>v_src := Some \<lparr>reader = rd, closed = False\<rparr>\<rparr>"
          let ?w = "with_exit (CallExit f0) (exit rd)
                      (\<lambda>g. g\<lparr>v_src := Some \<lparr>reader = rd, closed = True\<rparr>\<rparr>) (window_body E rd)"
          from with_exit_calls[of "CallExit f0" "exit rd" _ "window_body E rd" ?g1]
          obtain x where w: "calls_of (?w ?g1) = calls_of (window_body E rd ?g1) @ [(CallExit f0, x)]"
            by blast
          have "calls_of (cell_window E g) =
              [(CallRasterioOpen f0, None), (CallEnter f0, None)] @ calls_of (?w ?g1)"
            using Some f0 rd Inr
            by (simp add: cell_window_def stmt_defs calls_of_def raised_def
                split: prod.split sum.split option.split)
          with w have all_calls: "calls_of (cell_window E g) =
              [(CallRasterioOpen f0, None), (CallEnter f0, None)] @
              calls_of (window_body E rd ?g1) @ [(CallExit f0, x)]"
            by simp
          from window_body_calls[of E rd ?g1]
            filter_length_le[OF window_body_calls[of E rd ?g1], of ?P]
          show ?thesis
            unfolding all_calls by (simp add: calls_where_append calls_where_Cons calls_where_Nil)
        qed
      qed
    qed
  qed
qed

lemma straight_line_cells:
  "length (calls_of (cell_bounds E g)) \<le> 1 \<and>
   length (calls_of (cell_viewer E g)) \<le> 1 \<and>
   length (calls_of (cell_show E g)) \<le> 2"
  by (simp add: cell_bounds_def cell_viewer_def cell_show_def stmt_defs calls_of_def
      split: sum.split option.split prod.split)

text \<open>
  C4, as the code has it. The work of every step is done by package calls, but two
  steps are loops of the notebook's own. When the catalog answers, the listing step
  asks for the items of each collection whose id is the target, once per such
  collection, inside a loop over the collections that tests the id. When the reads
  succeed, the loop cell opens every URL of \<open>file_store\<close> once, in order, and calls
  \<open>concat\<close> once for every URL but the first; its flag \<open>first_run\<close> ends \<open>False\<close> unless
  there was no URL. The bounds, window and viewer cells are straight-line: at most one,
  three, one and two calls, the window cell's three inside a \<^verbatim>\<open>with\<close> block that
  adds the reader's \<^verbatim>\<open>__enter__\<close> and \<^verbatim>\<open>__exit__\<close>.
\<close>

theorem steps_call_libraries_in_loops:
  assumes "client_open E url = Inr cat"
    and "drain (get_collections cat) = Inr cols"
    and "list_all (\<lambda>c. collection_id c = tc \<longrightarrow> (\<exists>its. drain (get_all_items c) = Inr its)) cols"
    and "dict_keys_unique cols"
    and "v_file_store g = Some fs"
    and "v_window g = Some w"
    and "read_results E w fs = Inr ds"
  shows "calls_where is_get_all_items (calls_of (cell_catalog E url tc ti g0)) =
           map (\<lambda>c. CallGetAllItems (collection_id c)) (filter (\<lambda>c. collection_id c = tc) cols) \<and>
         calls_where is_open_dataset (calls_of (cell_datacube E g)) = map CallOpenDataset fs \<and>
         length (calls_where is_concat (calls_of (cell_datacube E g))) = length fs - 1 \<and>
         v_first_run (globals_of (cell_datacube E g)) = Some (fs = []) \<and>
         length (calls_of (cell_bounds E g0)) \<le> 1 \<and>
         length (calls_where (\<lambda>c. \<not> is_enter c \<and> \<not> is_exit c) (calls_of (cell_window E g0))) \<le> 3 \<and>
         length (calls_of (cell_window E g0)) \<le> 5 \<and>
         length (calls_of (cell_viewer E g0)) \<le> 1 \<and>
         length (calls_of (cell_show E g0)) \<le> 2"
proof -
  have loop: "cell_datacube E g = (loop_calls E w fs, Inr (), globals_of (cell_datacube E g)) \<and>
      v_first_run (globals_of (cell_datacube E g)) = Some (fs = [])"
  proof (cases fs)
    case Nil
    with assms(5) show ?thesis
      by (simp add: cell_datacube_empty loop_calls_def globals_of_def)
  next
    case (Cons f rest)
    from cell_datacube_run[of g f rest w E] assms(5,6,7) Cons show ?thesis
      by (simp add: globals_of_def)
  qed
  then have "calls_of (cell_datacube E g) = loop_calls E w fs"
    by (metis calls_of_def fst_conv)
  with loop show ?thesis
    using cell_catalog_requests[OF assms(1-4), where ti=ti and g=g0] straight_line_cells[of E g0]
      cell_window_calls[of E g0]
    by (simp add: loop_calls_open loop_calls_concat)
qed

theorem steps_call_libraries_in_loops_witness:
  "calls_where is_get_all_items
     (calls_of (cell_catalog sample_env catalog_url target_collection target_item fresh)) =
     [CallGetAllItems target_collection] \<and>
   calls_where is_open_dataset (calls_of (cell_datacube sample_env sample_globals)) =
     [CallOpenDataset url_2000, CallOpenDataset url_2001] \<and>
   length (calls_where is_concat (calls_of (cell_datacube sample_env sample_globals))) = 1 \<and>
   v_first_run (globals_of (cell_datacube sample_env sample_globals)) = Some False"
proof -
  have a: "client_open sample_env catalog_url = Inr sample_catalog"
    by (simp add: sample_env_def)
  have b: "drain (get_collections sample_catalog) =
     Inr [\<lparr> collection_id = ''lc_glad.glcluc'',
        get_all_items = gen_of [\<lparr> assets = [(target_item, \<lparr> href = ''elsewhere.tif'' \<rparr>)] \<rparr>] \<rparr>,
      \<lparr> collection_id = target_collection,
        get_all_items = gen_of
          [\<lparr> assets = [(''thumbnail'', \<lparr> href = ''preview_2000.png'' \<rparr>),
                        (target_item, \<lparr> href = url_2000 \<rparr>)] \<rparr>,
           \<lparr> assets = [(target_item, \<lparr> href = url_2001 \<rparr>),
                        (''wv_mcd19a2v061.seasconv.m.yearly_sd_1km_s'', \<lparr> href = ''sd_2001.tif'' \<rparr>)] \<rparr>] \<rparr>]"
    by (simp add: sample_catalog_def)
  have fs: "v_file_store sample_globals = Some [url_2000, url_2001]"
    and w: "v_window sample_globals = Some sample_window"
    by (simp_all add: sample_globals_def)
  have reads: "read_results sample_env sample_window [url_2000, url_2001] =
      Inr [[(20001231, [[0, 1], [10, 11], [20, 21]])], [(20011231, [[100, 101], [110, 111], [120, 121]])]]"
    by code_simp
  show ?thesis
    using steps_call_libraries_in_loops[OF a b _ _ fs w reads, where tc=target_collection and ti=target_item and ?g0.0=fresh]
    by (simp add: dict_keys_unique_def items_of_def target_collection_def target_item_def)
qed

text \<open>
  C4 as stated fails on the sample world: the listing step makes seven package calls and
  the concatenation step nine, among them one \<open>concat\<close> for two files; the step sets the
  flag \<open>first_run\<close> and leaves it \<open>False\<close>; and the loop body branches on it, making
  different calls for the same file under the two values of the flag.
\<close>

theorem single_call_per_step_counterexample:
  "length (calls_of (cell_catalog sample_env catalog_url target_collection target_item fresh)) = 7 \<and>
   length (calls_of (cell_datacube sample_env sample_globals)) = 9 \<and>
   calls_where is_concat (calls_of (cell_datacube sample_env sample_globals)) = [CallConcat] \<and>
   v_first_run sample_globals = None \<and>
   v_first_run (globals_of (cell_datacube sample_env sample_globals)) = Some False \<and>
   calls_of (loop_body sample_env url_2001 (sample_globals\<lparr>v_first_run := Some True\<rparr>)) \<noteq>
   calls_of (loop_body sample_env url_2001
      (sample_globals\<lparr>v_first_run := Some False, v_datacube := Some []\<rparr>))"
  by code_simp

subsection \<open>Runs of the whole notebook\<close>

lemma seq_reach:
  assumes "seq m n g = (l, r, g')" and "x \<in> set l" and "emits Q m" and "\<not> Q (fst x)"
  obtains l1 l2 g1 where "m g = (l1, Inr (), g1)" and "n g1 = (l2, r, g')"
    and "l = l1 @ l2" and "x \<in> set l2"
proof -
  obtain l1 r1 g1 where m: "m g = (l1, r1, g1)" by (cases "m g")
  from emits_calls[OF assms(3) m] assms(4) have notin: "x \<notin> set l1"
    by (auto simp: list_all_iff)
  show thesis
  proof (cases r1)
    case (Inl e)
    with m assms(1) have "l = l1" by (simp add: seq_def bind_apply)
    with assms(2) notin show thesis by simp
  next
    case (Inr u)
    obtain l2 r2 g2 where n: "n g1 = (l2, r2, g2)" by (cases "n g1")
    with m Inr assms(1) have eq: "l = l1 @ l2" "r = r2" "g' = g2"
      by (simp_all add: seq_def bind_apply)
    with assms(2) notin have "x \<in> set l2" by simp
    with m Inr n eq show thesis by (intro that[of l1 g1 l2]) simp_all
  qed
qed

lemma seq_success:
  assumes "seq m n g = (l, Inr y, g')"
  obtains l1 l2 g1 where "m g = (l1, Inr (), g1)" and "n g1 = (l2, Inr y, g')" and "l = l1 @ l2"
proof -
  obtain l1 r1 g1 where m: "m g = (l1, r1, g1)" by (cases "m g")
  show thesis
  proof (cases r1)
    case (Inl e)
    with m assms show thesis by (simp add: seq_def bind_apply)
  next
    case (Inr u)
    obtain l2 r2 g2 where n: "n g1 = (l2, r2, g2)" by (cases "n g1")
    with m Inr assms have "l = l1 @ l2" "r2 = Inr y" "g' = g2"
      by (simp_all add: seq_def bind_apply)
    with m Inr n show thesis by (intro that[of l1 g1 l2]) simp_all
  qed
qed

lemma handed_reaches_show:
  assumes "notebook E g0 = (l, r, g)" and "(CallAddDataset dc, y) \<in> set l"
  obtains l1 l2 l3 l4 l5 l6 g1 g2 g3 g4 g5 where
    "reaches_show E g0 l r g l1 l2 l3 l4 l5 l6 g1 g2 g3 g4 g5"
    and "(CallAddDataset dc, y) \<in> set l6"
proof -
  let ?x = "(CallAddDataset dc, y)"
  from assms obtain l1 k1 g1 where c1: "cell_bounds E g0 = (l1, Inr (), g1)"
    and r1: "seq (cell_catalog E catalog_url target_collection target_item)
               (seq (cell_window E) (seq (cell_datacube E) (seq (cell_viewer E) (cell_show E)))) g1
             = (k1, r, g)"
    and e1: "l = l1 @ k1" and m1: "?x \<in> set k1"
    unfolding notebook_def by (rule seq_reach[OF _ _ emits_cell_bounds]) simp_all
  from r1 m1 obtain l2 k2 g2 where
    c2: "cell_catalog E catalog_url target_collection target_item g1 = (l2, Inr (), g2)"
    and r2: "seq (cell_window E) (seq (cell_datacube E) (seq (cell_viewer E) (cell_show E))) g2
             = (k2, r, g)"
    and e2: "k1 = l2 @ k2" and m2: "?x \<in> set k2"
    by (rule seq_reach[OF _ _ emits_cell_catalog]) simp_all
  from r2 m2 obtain l3 k3 g3 where c3: "cell_window E g2 = (l3, Inr (), g3)"
    and r3: "seq (cell_datacube E) (seq (cell_viewer E) (cell_show E)) g3 = (k3, r, g)"
    and e3: "k2 = l3 @ k3" and m3: "?x \<in> set k3"
    by (rule seq_reach[OF _ _ emits_cell_window]) simp_all
  from r3 m3 obtain l4 k4 g4 where c4: "cell_datacube E g3 = (l4, Inr (), g4)"
    and r4: "seq (cell_viewer E) (cell_show E) g4 = (k4, r, g)"
    and e4: "k3 = l4 @ k4" and m4: "?x \<in> set k4"
    by (rule seq_reach[OF _ _ emits_cell_datacube]) simp_all
  from r4 m4 obtain l5 l6 g5 where c5: "cell_viewer E g4 = (l5, Inr (), g5)"
    and c6: "cell_show E g5 = (l6, r, g)"
    and e5: "k4 = l5 @ l6" and m5: "?x \<in> set l6"
    by (rule seq_reach[OF _ _ emits_cell_viewer]) simp_all
  from c1 c2 c3 c4 c5 c6 e1 e2 e3 e4 e5
  have "reaches_show E g0 l r g l1 l2 l3 l4 l5 l6 g1 g2 g3 g4 g5"
    by (simp add: reaches_show_def)
  then show thesis using m5 by (rule that)
qed

lemma success_reaches_show:
  assumes "notebook E g0 = (l, Inr (), g)"
  obtains l1 l2 l3 l4 l5 l6 g1 g2 g3 g4 g5 where
    "reaches_show E g0 l (Inr ()) g l1 l2 l3 l4 l5 l6 g1 g2 g3 g4 g5"
proof -
  from assms obtain l1 k1 g1 where c1: "cell_bounds E g0 = (l1, Inr (), g1)"
    and r1: "seq (cell_catalog E catalog_url target_collection target_item)
               (seq (cell_window E) (seq (cell_datacube E) (seq (cell_viewer E) (cell_show E)))) g1
             = (k1, Inr (), g)"
    and e1: "l = l1 @ k1"
    unfolding notebook_def by (rule seq_success)
  from r1 obtain l2 k2 g2 where
    c2: "cell_catalog E catalog_url target_collection target_item g1 = (l2, Inr (), g2)"
    and r2: "seq (cell_window E) (seq (cell_datacube E) (seq (cell_viewer E) (cell_show E))) g2
             = (k2, Inr (), g)"
    and e2: "k1 = l2 @ k2"
    by (rule seq_success)
  from r2 obtain l3 k3 g3 where c3: "cell_window E g2 = (l3, Inr (), g3)"
    and r3: "seq (cell_datacube E) (seq (cell_viewer E) (cell_show E)) g3 = (k3, Inr (), g)"
    and e3: "k2 = l3 @ k3"
    by (rule seq_success)
  from r3 obtain l4 k4 g4 where c4: "cell_datacube E g3 = (l4, Inr (), g4)"
    and r4: "seq (cell_viewer E) (cell_show E) g4 = (k4, Inr (), g)"
    and e4: "k3 = l4 @ k4"
    by (rule seq_success)
  from r4 obtain l5 l6 g5 where c5: "cell_viewer E g4 = (l5, Inr (), g5)"
    and c6: "cell_show E g5 = (l6, Inr (), g)"
    and e5: "k4 = l5 @ l6"
    by (rule seq_success)
  from c1 c2 c3 c4 c5 c6 e1 e2 e3 e4 e5
  have "reaches_show E g0 l (Inr ()) g l1 l2 l3 l4 l5 l6 g1 g2 g3 g4 g5"
    by (simp add: reaches_show_def)
  then show thesis by (rule that)
qed


lemma cell_window_success:
  assumes "cell_window E g = (l, Inr (), g')"
  obtains f rest b0 b1 b2 b3 src w s where
    "v_file_store g = Some (f # rest)" and "v_bounds g = Some (b0, b1, b2, b3)"
    and "rasterio_open E f = Inr src" and "from_bounds E b0 b1 b2 b3 (transform src) = Inr w"
    and "band_statistics src 1 = Inr s"
    and "l = [(CallRasterioOpen f, None), (CallEnter f, None),
              (CallFromBounds b0 b1 b2 b3 (transform src), None),
              (CallStatistics 1, None), (CallExit f, None)]"
    and "g' = g\<lparr>v_window := Some w,
                 files_written := files_written g @
                   (case stats_sidecar src of None \<Rightarrow> [] | Some p \<Rightarrow> [p]),
                 v_stats := Some s, v_src := Some \<lparr>reader = src, closed = True\<rparr>\<rparr>"
proof -
  note defs = cell_window_def window_body_def with_exit_def stmt_defs index_at_def
  from assms obtain fs where fs: "v_file_store g = Some fs"
    by (cases "v_file_store g") (simp_all add: defs)
  from assms fs obtain f rest where fr: "fs = f # rest"
    by (cases fs) (simp_all add: defs)
  from assms fs fr obtain src where src: "rasterio_open E f = Inr src"
    by (cases "rasterio_open E f") (simp_all add: defs)
  from assms fs fr src have en: "enter src = Inr ()"
    by (cases "enter src") (simp_all add: defs)
  from assms fs fr src en obtain b where b: "v_bounds g = Some b"
    by (cases "v_bounds g") (simp_all add: defs split: sum.splits)
  obtain b0 b1 b2 b3 where b4: "b = (b0, b1, b2, b3)" by (cases b)
  from assms fs fr src en b b4 obtain w where w: "from_bounds E b0 b1 b2 b3 (transform src) = Inr w"
    by (cases "from_bounds E b0 b1 b2 b3 (transform src)")
       (simp_all add: defs split: sum.splits)
  from assms fs fr src en b b4 w obtain s where s: "band_statistics src 1 = Inr s"
    by (cases "band_statistics src 1") (simp_all add: defs split: sum.splits)
  from assms fs fr src en b b4 w s have ex: "exit src None = Inr ()"
    by (cases "exit src None") (simp_all add: defs raised_def)
  from assms fs fr src en b b4 w s ex
  have "l = [(CallRasterioOpen f, None), (CallEnter f, None),
              (CallFromBounds b0 b1 b2 b3 (transform src), None),
              (CallStatistics 1, None), (CallExit f, None)]"
    "g' = g\<lparr>v_window := Some w,
                 files_written := files_written g @
                   (case stats_sidecar src of None \<Rightarrow> [] | Some p \<Rightarrow> [p]),
                 v_stats := Some s, v_src := Some \<lparr>reader = src, closed = True\<rparr>\<rparr>"
    by (simp_all add: defs raised_def)
  with fs fr src b b4 w s show thesis by (intro that[of f rest b0 b1 b2 b3 src w s]) simp_all
qed

lemma cell_show_handed:
  assumes "cell_show E g = (l, r, g')"
  shows "(\<forall>dc y. (CallAddDataset dc, y) \<in> set l \<longrightarrow>
            v_datacube g = Some dc \<and> calls_where is_add_dataset l = [CallAddDataset dc]) \<and>
         (r = Inr () \<longrightarrow> (\<exists>dc. l = [(CallAddDataset dc, None), (CallShow, None)]))"
  using assms
  by (auto simp: cell_show_def stmt_defs calls_where_def raised_def
      split: option.splits sum.splits)

lemma stage_of_kind:
  "is_rasterio_open c \<Longrightarrow> stage c = 3"
  "is_from_bounds c \<Longrightarrow> stage c = 3"
  "is_open_dataset c \<Longrightarrow> stage c = 4"
  "is_isel c \<Longrightarrow> stage c = 4"
  "is_add_dataset c \<Longrightarrow> stage c = 5"
  by (cases c; simp)+

lemma reached_facts:
  assumes "reaches_show E g0 l r g l1 l2 l3 l4 l5 l6 g1 g2 g3 g4 g5"
  obtains f rest b0 b1 b2 b3 src w ds dc where
    "v_file_store g = Some (f # rest)" and "v_bounds g = Some (b0, b1, b2, b3)"
    and "v_window g = Some w" and "v_datacube g = Some dc" and "v_datacube g5 = Some dc"
    and "rasterio_open E f = Inr src" and "from_bounds E b0 b1 b2 b3 (transform src) = Inr w"
    and "read_results E w (f # rest) = Inr ds" and "spec_fold_concat ds = Some dc"
    and "l3 = [(CallRasterioOpen f, None), (CallEnter f, None),
               (CallFromBounds b0 b1 b2 b3 (transform src), None),
               (CallStatistics 1, None), (CallExit f, None)]"
    and "l4 = loop_calls E w (f # rest)"
proof -
  from assms have c3: "cell_window E g2 = (l3, Inr (), g3)"
    and c4: "cell_datacube E g3 = (l4, Inr (), g4)"
    and c5: "cell_viewer E g4 = (l5, Inr (), g5)"
    and c6: "cell_show E g5 = (l6, r, g)"
    by (simp_all add: reaches_show_def)
  from c3 obtain f rest b0 b1 b2 b3 src w s where
    fs2: "v_file_store g2 = Some (f # rest)" and b2: "v_bounds g2 = Some (b0, b1, b2, b3)"
    and src: "rasterio_open E f = Inr src" and w: "from_bounds E b0 b1 b2 b3 (transform src) = Inr w"
    and l3: "l3 = [(CallRasterioOpen f, None), (CallEnter f, None),
              (CallFromBounds b0 b1 b2 b3 (transform src), None),
              (CallStatistics 1, None), (CallExit f, None)]"
    and g3: "g3 = g2\<lparr>v_window := Some w,
                 files_written := files_written g2 @
                   (case stats_sidecar src of None \<Rightarrow> [] | Some p \<Rightarrow> [p]),
                 v_stats := Some s, v_src := Some \<lparr>reader = src, closed = True\<rparr>\<rparr>"
    by (rule cell_window_success)
  from g3 fs2 b2 have at3: "v_file_store g3 = Some (f # rest)" "v_window g3 = Some w"
    "v_bounds g3 = Some (b0, b1, b2, b3)"
    by simp_all
  note run = cell_datacube_run[OF at3(1,2), of E]
  from run c4 obtain ds where ds: "read_results E w (f # rest) = Inr ds"
    by (cases "read_results E w (f # rest)") (simp_all add: result_of_def)
  with run c4 have l4: "l4 = loop_calls E w (f # rest)"
    and g4: "g4 = g3\<lparr>v_first_run := Some False,
                v_f := Some (last (f # rest)),
                v_d := (if tl ds = [] then v_d g3 else Some (last ds)),
                v_datacube := spec_fold_concat ds\<rparr>"
    by simp_all
  from ds obtain dc where dc: "spec_fold_concat ds = Some dc"
    by (cases ds) (auto simp: spec_fold_concat_def split: sum.splits)
  from g4 at3 dc have at4: "v_file_store g4 = Some (f # rest)" "v_window g4 = Some w"
    "v_bounds g4 = Some (b0, b1, b2, b3)" "v_datacube g4 = Some dc"
    by simp_all
  have "keeps v_file_store (cell_viewer E)" "keeps v_window (cell_viewer E)"
    "keeps v_bounds (cell_viewer E)" "keeps v_datacube (cell_viewer E)"
    by (rule keeps_field[OF keeps_cell_viewer], simp)+
  from this[THEN keepsD, OF c5] at4
  have at5: "v_file_store g5 = Some (f # rest)" "v_window g5 = Some w"
    "v_bounds g5 = Some (b0, b1, b2, b3)" "v_datacube g5 = Some dc"
    by simp_all
  have "keeps v_file_store (cell_show E)" "keeps v_window (cell_show E)"
    "keeps v_bounds (cell_show E)" "keeps v_datacube (cell_show E)"
    by (rule keeps_field[OF keeps_cell_show], simp)+
  from this[THEN keepsD, OF c6] at5
  have at6: "v_file_store g = Some (f # rest)" "v_window g = Some w"
    "v_bounds g = Some (b0, b1, b2, b3)" "v_datacube g = Some dc"
    by simp_all
  with at5 src w ds dc l3 l4 show thesis
    by (intro that[of f rest b0 b1 b2 b3 w dc src ds]) simp_all
qed


text \<open>
  C1. Take any run of the notebook in which a datacube is handed to \<open>add_dataset\<close>, let
  \<open>file_store\<close> hold the URLs \<open>fs\<close>, and let every file cover one year, that is, let
  \<open>date_range\<close> over the 6th and 7th underscore-separated fields of each URL answer a
  single date, \<open>year_end f\<close>. Then the datacube handed over is the variable \<open>datacube\<close>,
  its time coordinates are the dates \<open>year_end f\<close> of the files in \<open>file_store\<close> order, and
  so its time dimension has exactly as many steps as \<open>file_store\<close> has URLs.
\<close>

theorem datacube_has_one_time_step_per_file:
  assumes "notebook E g0 = (l, r, g)"
    and "(CallAddDataset dc, y) \<in> set l"
    and "v_file_store g = Some fs"
    and "\<forall>f\<in>set fs. dates_of E f = [year_end f]"
  shows "v_datacube g = Some dc \<and> time_coords dc = map year_end fs \<and>
         length (time_coords dc) = length fs"
proof -
  from assms(1,2) obtain l1 l2 l3 l4 l5 l6 g1 g2 g3 g4 g5 where
    chain: "reaches_show E g0 l r g l1 l2 l3 l4 l5 l6 g1 g2 g3 g4 g5"
    and handed: "(CallAddDataset dc, y) \<in> set l6"
    by (rule handed_reaches_show)
  from chain have c6: "cell_show E g5 = (l6, r, g)" by (simp add: reaches_show_def)
  from cell_show_handed[OF c6] handed have dc5: "v_datacube g5 = Some dc" by blast
  from chain obtain f rest w ds dc' where
    fs': "v_file_store g = Some (f # rest)" and cube: "v_datacube g = Some dc'"
    and cube5: "v_datacube g5 = Some dc'"
    and ds: "read_results E w (f # rest) = Inr ds" and fold: "spec_fold_concat ds = Some dc'"
    by (rule reached_facts)
  from dc5 cube5 have same: "dc' = dc" by simp
  from fs' assms(3) have fs: "fs = f # rest" by simp
  from datacube_times[OF ds fold] same fs
  have "time_coords dc = concat (map (dates_of E) fs)" by simp
  also from assms(4) have "map (dates_of E) fs = map (\<lambda>f. [year_end f]) fs" by simp
  also have "concat (map (\<lambda>f. [year_end f]) fs) = map year_end fs"
    by (induction fs) simp_all
  finally have "time_coords dc = map year_end fs" .
  with cube same show ?thesis by simp
qed

theorem datacube_has_one_time_step_per_file_witness:
  "v_datacube (globals_of (notebook sample_env fresh)) =
     Some [(20001231, [[0, 1], [10, 11], [20, 21]]), (20011231, [[100, 101], [110, 111], [120, 121]])] \<and>
   time_coords [(20001231, [[0, 1], [10, 11], [20, 21]]), (20011231, [[100, 101], [110, 111], [120, 121]])] =
     map (\<lambda>f. hd (dates_of sample_env f)) [url_2000, url_2001] \<and>
   map (\<lambda>f. hd (dates_of sample_env f)) [url_2000, url_2001] = [20001231, 20011231]"
proof -
  let ?dc = "[(20001231, [[0, 1], [10, 11], [20, 21]]), (20011231, [[100, 101], [110, 111], [120, 121]])]"
  have handed: "(CallAddDataset ?dc, None) \<in> set (calls_of (notebook sample_env fresh))"
    by code_simp
  have fs: "v_file_store (globals_of (notebook sample_env fresh)) = Some [url_2000, url_2001]"
    by code_simp
  have d0: "dates_of sample_env url_2000 = [20001231]" by code_simp
  have d1: "dates_of sample_env url_2001 = [20011231]" by code_simp
  from d0 d1 have years: "\<forall>f\<in>set [url_2000, url_2001]. dates_of sample_env f = [hd (dates_of sample_env f)]"
    by simp
  note run = run_eq[of "notebook sample_env" fresh]
  from datacube_has_one_time_step_per_file[OF run handed fs,
      where year_end = "\<lambda>f. hd (dates_of sample_env f)", OF years] d0 d1
  show ?thesis by simp
qed


lemma reached_calls:
  assumes "reaches_show E g0 l r g l1 l2 l3 l4 l5 l6 g1 g2 g3 g4 g5"
  shows "list_all (\<lambda>x. stage (fst x) = 0) l1"
    and "list_all (\<lambda>x. stage (fst x) = 1 \<or> stage (fst x) = 2) l2"
    and "list_all (\<lambda>x. stage (fst x) = 4) l4"
    and "list_all (\<lambda>x. stage (fst x) = 5 \<and> \<not> is_add_dataset (fst x)) l5"
    and "list_all (\<lambda>x. stage (fst x) = 5) l6"
    and "l = l1 @ l2 @ l3 @ l4 @ l5 @ l6"
proof -
  from assms have c1: "cell_bounds E g0 = (l1, Inr (), g1)"
    and c2: "cell_catalog E catalog_url target_collection target_item g1 = (l2, Inr (), g2)"
    and c4: "cell_datacube E g3 = (l4, Inr (), g4)"
    and c5: "cell_viewer E g4 = (l5, Inr (), g5)"
    and c6: "cell_show E g5 = (l6, r, g)"
    and l: "l = l1 @ l2 @ l3 @ l4 @ l5 @ l6"
    by (simp_all add: reaches_show_def)
  show "list_all (\<lambda>x. stage (fst x) = 0) l1"
    by (rule emits_calls[OF emits_cell_bounds c1])
  show "list_all (\<lambda>x. stage (fst x) = 1 \<or> stage (fst x) = 2) l2"
    by (rule emits_calls[OF emits_cell_catalog c2])
  show "list_all (\<lambda>x. stage (fst x) = 4) l4"
    by (rule emits_calls[OF emits_cell_datacube c4])
  show "list_all (\<lambda>x. stage (fst x) = 5 \<and> \<not> is_add_dataset (fst x)) l5"
    by (rule emits_calls[OF emits_cell_viewer c5])
  show "list_all (\<lambda>x. stage (fst x) = 5) l6"
    by (rule emits_calls[OF emits_cell_show c6])
  show "l = l1 @ l2 @ l3 @ l4 @ l5 @ l6" by (rule l)
qed

lemma calls_where_other_stage:
  assumes "list_all (\<lambda>x. Q (stage (fst x))) l" and "\<And>c. P c \<Longrightarrow> \<not> Q (stage c)"
  shows "calls_where P l = []"
proof -
  have "\<not> P (fst x)" if "x \<in> set l" for x
  proof
    assume "P (fst x)"
    then have "\<not> Q (stage (fst x))" by (rule assms(2))
    moreover from assms(1) that have "Q (stage (fst x))" by (simp add: list_all_iff)
    ultimately show False by simp
  qed
  then show ?thesis by (simp add: calls_where_def filter_empty_conv)
qed



subsection \<open>The order of the stages\<close>

lemma in_stages_Nil: "in_stages lo hi []"
  by (simp add: in_stages_def)

lemma in_stages_append:
  assumes "in_stages lo mid l" and "in_stages mid hi l'" and "lo \<le> mid" and "mid \<le> hi"
  shows "in_stages lo hi (l @ l')"
  using assms unfolding in_stages_def list_all_iff
  by (fastforce simp: sorted_append)

lemma staged_silent:
  "staged lo hi (ret x)" "staged lo hi (raise e)" "staged lo hi (lift r)"
  "staged lo hi (read_var v)" "staged lo hi (assign upd)"
  by (simp_all add: staged_def calls_of_def stmt_defs in_stages_Nil split: option.split)

lemma staged_bind:
  assumes "staged lo mid m" and "\<And>x. staged mid hi (f x)" and "lo \<le> mid" and "mid \<le> hi"
  shows "staged lo hi (bind m f)"
  unfolding staged_def
proof
  fix g
  obtain l r g' where m: "m g = (l, r, g')" by (cases "m g")
  from assms(1) m have l: "in_stages lo mid l"
    by (auto simp: staged_def calls_of_def dest: spec[of _ g])
  show "in_stages lo hi (calls_of (bind m f g))"
  proof (cases r)
    case (Inl e)
    from in_stages_append[OF l in_stages_Nil assms(3,4)] m Inl show ?thesis
      by (simp add: bind_apply calls_of_def)
  next
    case (Inr x)
    obtain l' r' g'' where f: "f x g' = (l', r', g'')" by (cases "f x g'")
    from assms(2)[of x] f have "in_stages mid hi l'"
      by (auto simp: staged_def calls_of_def dest: spec[of _ g'])
    from in_stages_append[OF l this assms(3,4)] m Inr f show ?thesis
      by (simp add: bind_apply calls_of_def)
  qed
qed

lemma staged_seq:
  "staged lo mid m \<Longrightarrow> staged mid hi n \<Longrightarrow> lo \<le> mid \<Longrightarrow> mid \<le> hi \<Longrightarrow> staged lo hi (seq m n)"
  by (simp add: seq_def staged_bind)

lemma staged_emits:
  assumes "emits (\<lambda>c. lo \<le> stage c \<and> stage c \<le> lo) m"
  shows "staged lo lo m"
  unfolding staged_def in_stages_def
proof (intro allI conjI)
  fix g
  from assms have all: "list_all (\<lambda>x. lo \<le> stage (fst x) \<and> stage (fst x) \<le> lo) (calls_of (m g))"
    by (simp add: emits_def)
  then show "list_all (\<lambda>x. lo \<le> stage (fst x) \<and> stage (fst x) \<le> lo) (calls_of (m g))" .
  from all have "map (\<lambda>x. stage (fst x)) (calls_of (m g)) = replicate (length (calls_of (m g))) lo"
    by (induction "calls_of (m g)") (auto simp: list_all_iff map_replicate_const[symmetric]
        intro!: map_cong dest: le_antisym)
  then show "sorted (map (\<lambda>x. stage (fst x)) (calls_of (m g)))"
    by (simp add: sorted_replicate)
qed

lemma staged_weaken:
  assumes "staged a b m" and "a' \<le> a" and "b \<le> b'"
  shows "staged a' b' m"
  using assms unfolding staged_def in_stages_def list_all_iff by fastforce

lemma staged_stage: "emits (\<lambda>c. stage c = k) m \<Longrightarrow> staged k k m"
  by (rule staged_emits) (erule emits_weaken, simp)

lemma staged_cell_catalog: "staged 1 2 (cell_catalog E url tc ti)"
proof -
  have "emits (\<lambda>c. stage c = 2)
      (for_gen CallGetCollections (\<lambda>rest g. g) (\<lambda>c g. g\<lparr>v_collection := Some c\<rparr>)
         (scan_collection tc ti) cols)" for cols
    by (intro emits_for_gen emits_scan_collection) simp
  then have "staged 2 2
      (for_gen CallGetCollections (\<lambda>rest g. g) (\<lambda>c g. g\<lparr>v_collection := Some c\<rparr>)
         (scan_collection tc ti) cols)" for cols
    by (rule staged_stage)
  then have loop: "staged 1 2
      (for_gen CallGetCollections (\<lambda>rest g. g) (\<lambda>c g. g\<lparr>v_collection := Some c\<rparr>)
         (scan_collection tc ti) cols)" for cols
    by (rule staged_weaken) simp_all
  have c1: "staged 1 1 (lib_call (CallClientOpen url) (client_open E url))"
    by (rule staged_stage[OF emits_lib_call]) simp
  have c2: "staged 1 1 (lib_call CallGetCollections r)" for r :: "error + collection gen"
    by (rule staged_stage[OF emits_lib_call]) simp
  show ?thesis
    unfolding cell_catalog_def
    by (intro staged_seq[where mid = 1] staged_bind[where mid = 1] staged_silent c1 c2 loop) simp_all
qed

lemma staged_notebook: "staged 0 5 (notebook E)"
proof -
  have b: "staged 0 0 (cell_bounds E)" by (rule staged_stage[OF emits_cell_bounds])
  have c: "staged 0 2 (cell_catalog E catalog_url target_collection target_item)"
    by (rule staged_weaken[OF staged_cell_catalog]) simp_all
  have w: "staged 2 3 (cell_window E)"
    by (rule staged_weaken[OF staged_stage[OF emits_cell_window]]) simp_all
  have d: "staged 3 4 (cell_datacube E)"
    by (rule staged_weaken[OF staged_stage[OF emits_cell_datacube]]) simp_all
  have "emits (\<lambda>c. stage c = 5) (cell_viewer E)"
    by (rule emits_weaken[OF emits_cell_viewer]) simp
  then have v: "staged 4 5 (cell_viewer E)"
    by (rule staged_weaken[OF staged_stage]) simp_all
  have s: "staged 5 5 (cell_show E)" by (rule staged_stage[OF emits_cell_show])
  have "staged 4 5 (seq (cell_viewer E) (cell_show E))"
    by (rule staged_seq[OF v s]) simp_all
  then have "staged 3 5 (seq (cell_datacube E) (seq (cell_viewer E) (cell_show E)))"
    by (rule staged_seq[OF d]) simp_all
  then have "staged 2 5 (seq (cell_window E) (seq (cell_datacube E) (seq (cell_viewer E) (cell_show E))))"
    by (rule staged_seq[OF w]) simp_all
  then have "staged 0 5 (seq (cell_catalog E catalog_url target_collection target_item)
      (seq (cell_window E) (seq (cell_datacube E) (seq (cell_viewer E) (cell_show E)))))"
    by (rule staged_seq[OF c]) simp_all
  then show ?thesis
    unfolding notebook_def by (rule staged_seq[OF b]) simp_all
qed


lemma cell_bounds_success:
  assumes "cell_bounds E g = (l, Inr (), g')"
  shows "\<exists>x\<in>set l. stage (fst x) = 0"
proof -
  from assms obtain drawn where d: "index_last (draw_data E) = Inr drawn"
    by (cases "index_last (draw_data E)") (simp_all add: cell_bounds_def stmt_defs)
  with assms have "(CallShape (geometry drawn), raised (shape_bounds E (geometry drawn))) \<in> set l"
    by (cases "shape_bounds E (geometry drawn)") (auto simp: cell_bounds_def stmt_defs)
  then show ?thesis by force
qed

lemma scan_collections_silent:
  "for_gen CallGetCollections (\<lambda>rest g. g) (\<lambda>c g. g\<lparr>v_collection := Some c\<rparr>)
     (scan_collection tc ti) gen g = ([], r, g') \<Longrightarrow> v_file_store g' = v_file_store g"
proof (induction gen arbitrary: g)
  case Done
  then show ?case by (simp add: assign_def)
next
  case (Fail e)
  then show ?case by (simp add: seq_assign lib_call_def)
next
  case (Yield c gen)
  let ?loop = "for_gen CallGetCollections (\<lambda>rest g. g) (\<lambda>c g. g\<lparr>v_collection := Some c\<rparr>)
     (scan_collection tc ti)"
  let ?g1 = "g\<lparr>v_collection := Some c\<rparr>"
  from Yield.prems have run: "seq (scan_collection tc ti c) (?loop gen) ?g1 = ([], r, g')"
    by (simp add: seq_assign)
  show ?case
  proof (cases "collection_id c = tc")
    case True
    obtain k rk gk where one: "scan_collection tc ti c ?g1 = (k, rk, gk)"
      by (cases "scan_collection tc ti c ?g1")
    with True have "k \<noteq> []"
      by (auto simp: scan_collection_def bind_apply lib_call_def split: prod.splits sum.splits)
    with one run have False
      by (cases rk) (auto simp: seq_def bind_apply split: prod.splits)
    then show ?thesis ..
  next
    case False
    then have "scan_collection tc ti c ?g1 = ([], Inr (), ?g1)"
      by (simp add: scan_collection_def ret_def)
    with run have "?loop gen ?g1 = ([], r, g')"
      by (cases "?loop gen ?g1") (simp add: seq_def bind_apply)
    then have "v_file_store g' = v_file_store ?g1" by (rule Yield.IH)
    then show ?thesis by simp
  qed
qed

lemma cell_catalog_success:
  assumes "cell_catalog E url tc ti g = (l, Inr (), g')" and "v_file_store g' \<noteq> Some []"
  shows "(\<exists>x\<in>set l. stage (fst x) = 1) \<and> (\<exists>x\<in>set l. stage (fst x) = 2)"
proof -
  let ?loop = "for_gen CallGetCollections (\<lambda>rest g. g) (\<lambda>c g. g\<lparr>v_collection := Some c\<rparr>)
     (scan_collection tc ti)"
  from assms(1) obtain cat where cat: "client_open E url = Inr cat"
    by (cases "client_open E url") (simp_all add: cell_catalog_def stmt_defs)
  let ?g0 = "g\<lparr>v_file_store := Some [], v_catalog := Some cat\<rparr>"
  obtain l' r' g'' where loop: "?loop (get_collections cat) ?g0 = (l', r', g'')"
    by (cases "?loop (get_collections cat) ?g0")
  with assms(1) cat have l: "l = (CallClientOpen url, None) # (CallGetCollections, None) # l'"
    and g': "g'' = g'"
    by (simp_all add: cell_catalog_def stmt_defs raised_def)
  have "l' \<noteq> []"
  proof
    assume "l' = []"
    with loop have "v_file_store g'' = v_file_store ?g0" by (simp add: scan_collections_silent)
    with g' have "v_file_store g' = v_file_store ?g0" by simp
    then have "v_file_store g' = Some []" by simp
    with assms(2) show False by contradiction
  qed
  then obtain x where x: "x \<in> set l'" by (cases l') auto
  have "emits (\<lambda>c. stage c = 2) (?loop (get_collections cat))"
    by (intro emits_for_gen emits_scan_collection) simp
  from emits_calls[OF this loop] x have "stage (fst x) = 2"
    by (simp add: list_all_iff)
  with x l show ?thesis by force
qed

lemma calls_where_some: "calls_where P l \<noteq> [] \<Longrightarrow> \<exists>x\<in>set l. P (fst x)"
  by (auto simp: calls_where_def filter_empty_conv)


lemma calls_where_either:
  assumes "list_all (\<lambda>x. \<not> Q (fst x)) l"
  shows "calls_where (\<lambda>c. P c \<or> Q c) l = calls_where P l"
  using assms by (induction l) (auto simp: calls_where_def)

lemma read_calls_reads: "reads_and_concats (read_calls E f win) = [CallOpenDataset f]"
proof -
  obtain l r g where run: "read_raster E f win fresh = (l, r, g)"
    by (cases "read_raster E f win fresh")
  from emits_calls[OF emits_read_raster_no_concat run]
  have "list_all (\<lambda>x. \<not> is_concat (fst x)) l" by (simp add: list_all_iff)
  then have "calls_where (\<lambda>c. is_open_dataset c \<or> is_concat c) l = calls_where is_open_dataset l"
    by (rule calls_where_either)
  with run read_calls_open[of E f win] show ?thesis
    by (simp add: reads_and_concats_def read_calls_def calls_of_def)
qed

lemma loop_calls_alternate: "reads_and_concats (loop_calls E w fs) = alternating fs"
proof (cases fs)
  case Nil
  then show ?thesis
    by (simp add: loop_calls_def alternating_def reads_and_concats_def calls_where_Nil)
next
  case (Cons f rest)
  note one = read_calls_reads[unfolded reads_and_concats_def]
  have "calls_where (\<lambda>c. is_open_dataset c \<or> is_concat c)
      (concat (map (\<lambda>f'. read_calls E f' (ArgWindow w) @ [(CallConcat, None)]) rest)) =
      concat (map (\<lambda>f'. [CallOpenDataset f', CallConcat]) rest)"
    by (induction rest) (simp_all add: calls_where_Nil calls_where_append calls_where_Cons one)
  with Cons show ?thesis
    by (simp add: loop_calls_def alternating_def reads_and_concats_def calls_where_append one)
qed

text \<open>
  C6, as the code has it. In every run of the notebook that ends normally the package
  calls come stage by stage, in the order: bounds of the drawn region, catalog query,
  listing of the assets, pixel window, building of the datacube, viewer. Every stage
  occurs and none is entered again once left. Inside the building stage the first URL
  of \<open>file_store\<close> is read, and every later URL is read and at once concatenated onto
  the cube so far, so reads and concatenations alternate. \<open>add_dataset\<close> is called
  exactly once, with the datacube that is the fold of \<open>concat\<close> over the reads of
  \<open>file_store\<close> under \<open>window\<close>, and with nothing else.
\<close>

theorem steps_run_in_pipeline_order:
  assumes "notebook E g0 = (l, Inr (), g)"
  shows "sorted (map (\<lambda>x. stage (fst x)) l) \<and>
         (\<forall>k\<le>5. \<exists>x\<in>set l. stage (fst x) = k) \<and>
         (\<exists>dc w fs ds. v_datacube g = Some dc \<and> v_window g = Some w \<and> v_file_store g = Some fs \<and>
            read_results E w fs = Inr ds \<and> spec_fold_concat ds = Some dc \<and>
            calls_where is_add_dataset l = [CallAddDataset dc] \<and>
            reads_and_concats l = alternating fs)"
proof -
  from staged_notebook[of E] assms have order: "sorted (map (\<lambda>x. stage (fst x)) l)"
    by (auto simp: staged_def in_stages_def calls_of_def dest: spec[of _ g0])
  from assms obtain l1 l2 l3 l4 l5 l6 g1 g2 g3 g4 g5 where
    chain: "reaches_show E g0 l (Inr ()) g l1 l2 l3 l4 l5 l6 g1 g2 g3 g4 g5"
    by (rule success_reaches_show)
  then have c1: "cell_bounds E g0 = (l1, Inr (), g1)"
    and c2: "cell_catalog E catalog_url target_collection target_item g1 = (l2, Inr (), g2)"
    and c3: "cell_window E g2 = (l3, Inr (), g3)"
    and c6: "cell_show E g5 = (l6, Inr (), g)"
    by (simp_all add: reaches_show_def)
  from chain obtain f rest b0 b1 b2 b3 src w ds dc where
    fs: "v_file_store g = Some (f # rest)" and b: "v_bounds g = Some (b0, b1, b2, b3)"
    and w: "v_window g = Some w"
    and cube: "v_datacube g = Some dc" and cube5: "v_datacube g5 = Some dc"
    and src: "rasterio_open E f = Inr src" and fb: "from_bounds E b0 b1 b2 b3 (transform src) = Inr w"
    and ds: "read_results E w (f # rest) = Inr ds" and fold: "spec_fold_concat ds = Some dc"
    and l3: "l3 = [(CallRasterioOpen f, None), (CallEnter f, None),
               (CallFromBounds b0 b1 b2 b3 (transform src), None),
               (CallStatistics 1, None), (CallExit f, None)]"
    and l4: "l4 = loop_calls E w (f # rest)"
    by (rule reached_facts)
  note parts = reached_calls[OF chain]
  from c3 have "v_file_store g2 \<noteq> Some []"
    by (rule cell_window_success) simp
  from cell_catalog_success[OF c2 this] obtain x1 x2 where
    s1: "x1 \<in> set l2" "stage (fst x1) = 1" and s2: "x2 \<in> set l2" "stage (fst x2) = 2"
    by blast
  from cell_bounds_success[OF c1] obtain x0 where s0: "x0 \<in> set l1" "stage (fst x0) = 0"
    by blast
  from l3 have s3: "(CallStatistics 1, None) \<in> set l3" "stage (fst (CallStatistics 1, None :: error option)) = 3"
    by simp_all
  from l4 loop_calls_open[of E w "f # rest"] have "calls_where is_open_dataset l4 \<noteq> []"
    by simp
  from calls_where_some[OF this] obtain x4 where s4: "x4 \<in> set l4" "stage (fst x4) = 4"
    using stage_of_kind(3) by blast
  from cell_show_handed[OF c6] obtain dc' where
    l6: "l6 = [(CallAddDataset dc', None), (CallShow, None)]"
    by blast
  from cell_show_handed[OF c6] l6 cube5 have same: "dc' = dc"
    by auto
  from l6 have s5: "(CallShow, None) \<in> set l6" "stage (fst (CallShow, None :: error option)) = 5"
    by simp_all
  have present: "\<exists>x\<in>set l. stage (fst x) = k" if "k \<le> 5" for k
  proof -
    from that consider "k = 0" | "k = 1" | "k = 2" | "k = 3" | "k = 4" | "k = 5"
      by arith
    then show ?thesis
    proof cases
      case 1 with s0 parts(6) show ?thesis by auto
    next
      case 2 with s1 parts(6) show ?thesis by auto
    next
      case 3 with s2 parts(6) show ?thesis by auto
    next
      case 4 with s3 parts(6) show ?thesis by (intro bexI[of _ "(CallStatistics 1, None)"]) auto
    next
      case 5 with s4 parts(6) show ?thesis by auto
    next
      case 6 with s5 parts(6) show ?thesis by (intro bexI[of _ "(CallShow, None)"]) auto
    qed
  qed
  have "calls_where is_add_dataset l1 = []"
    by (rule calls_where_other_stage[where Q = "\<lambda>k. k = 0", OF parts(1)])
       (simp add: stage_of_kind)
  moreover have "calls_where is_add_dataset l2 = []"
    by (rule calls_where_other_stage[where Q = "\<lambda>k. k = 1 \<or> k = 2", OF parts(2)])
       (simp add: stage_of_kind)
  moreover from l3 have "calls_where is_add_dataset l3 = []"
    by (simp add: calls_where_Cons calls_where_Nil)
  moreover have "calls_where is_add_dataset l4 = []"
    by (rule calls_where_other_stage[where Q = "\<lambda>k. k = 4", OF parts(3)])
       (simp add: stage_of_kind)
  moreover from parts(4) have "calls_where is_add_dataset l5 = []"
    by (auto simp: calls_where_def list_all_iff filter_empty_conv)
  moreover from l6 same have "calls_where is_add_dataset l6 = [CallAddDataset dc]"
    by (simp add: calls_where_Cons calls_where_Nil)
  ultimately have handed: "calls_where is_add_dataset l = [CallAddDataset dc]"
    using parts(6) by (simp add: calls_where_append)
  have rc_stage: "stage c = 3 \<or> stage c = 4" if "is_open_dataset c \<or> is_concat c" for c
    using that by (cases c) simp_all
  have "reads_and_concats l1 = []" unfolding reads_and_concats_def
    by (rule calls_where_other_stage[where Q = "\<lambda>k. k = 0", OF parts(1)]) (use rc_stage in force)
  moreover have "reads_and_concats l2 = []" unfolding reads_and_concats_def
    by (rule calls_where_other_stage[where Q = "\<lambda>k. k = 1 \<or> k = 2", OF parts(2)])
       (use rc_stage in force)
  moreover from l3 have "reads_and_concats l3 = []"
    by (simp add: reads_and_concats_def calls_where_Cons calls_where_Nil)
  moreover from l4 have "reads_and_concats l4 = alternating (f # rest)"
    by (simp add: loop_calls_alternate)
  moreover have "reads_and_concats l5 = []" unfolding reads_and_concats_def
    by (rule calls_where_other_stage[where Q = "\<lambda>k. k = 5"])
       (use parts(4) rc_stage in \<open>force simp: list_all_iff\<close>)+
  moreover have "reads_and_concats l6 = []" unfolding reads_and_concats_def
    by (rule calls_where_other_stage[where Q = "\<lambda>k. k = 5", OF parts(5)]) (use rc_stage in force)
  ultimately have alt: "reads_and_concats l = alternating (f # rest)"
    using parts(6) by (simp add: reads_and_concats_def calls_where_append)
  from order present cube w fs ds fold handed alt show ?thesis by blast
qed

theorem steps_run_in_pipeline_order_witness:
  "map (\<lambda>x. stage (fst x)) (calls_of (notebook sample_env fresh)) =
     [0, 1, 1, 2, 2, 2, 2, 2, 3, 3, 3, 3, 3, 4, 4, 4, 4, 4, 4, 4, 4, 4, 5, 5, 5] \<and>
   sorted (map (\<lambda>x. stage (fst x)) (calls_of (notebook sample_env fresh))) \<and>
   calls_where is_add_dataset (calls_of (notebook sample_env fresh)) =
     [CallAddDataset [(20001231, [[0, 1], [10, 11], [20, 21]]),
                      (20011231, [[100, 101], [110, 111], [120, 121]])]] \<and>
   reads_and_concats (calls_of (notebook sample_env fresh)) =
     [CallOpenDataset url_2000, CallOpenDataset url_2001, CallConcat]"
proof -
  have ok: "result_of (notebook sample_env fresh) = Inr ()" by code_simp
  have run: "notebook sample_env fresh =
      (calls_of (notebook sample_env fresh), Inr (), globals_of (notebook sample_env fresh))"
    using run_eq[of "notebook sample_env" fresh] ok by simp
  have stages: "map (\<lambda>x. stage (fst x)) (calls_of (notebook sample_env fresh)) =
     [0, 1, 1, 2, 2, 2, 2, 2, 3, 3, 3, 3, 3, 4, 4, 4, 4, 4, 4, 4, 4, 4, 5, 5, 5]"
    by code_simp
  have cube: "v_datacube (globals_of (notebook sample_env fresh)) =
     Some [(20001231, [[0, 1], [10, 11], [20, 21]]), (20011231, [[100, 101], [110, 111], [120, 121]])]"
    by code_simp
  have fs: "v_file_store (globals_of (notebook sample_env fresh)) = Some [url_2000, url_2001]"
    by code_simp
  have alt: "alternating [url_2000, url_2001] =
      [CallOpenDataset url_2000, CallOpenDataset url_2001, CallConcat]"
    by (simp add: alternating_def)
  from steps_run_in_pipeline_order[OF run] cube stages fs alt show ?thesis by auto
qed


text \<open>
  C6 as stated puts reading every asset before concatenating the reads. With three
  files listed the run ends normally, but the third file is read after the first
  concatenation.
\<close>

theorem reads_before_concats_counterexample:
  "result_of (notebook sample_env_three fresh) = Inr () \<and>
   reads_and_concats (calls_of (notebook sample_env_three fresh)) =
     [CallOpenDataset url_2000, CallOpenDataset url_2001, CallConcat,
      CallOpenDataset url_2002, CallConcat] \<and>
   \<not> reads_then_concats (reads_and_concats (calls_of (notebook sample_env_three fresh)))"
  by code_simp

end
